theory Spec2Isabelle
  imports Main "HOL-Library.Sublist"
begin

section \<open>Text and characters\<close>

text \<open>
  A Python \<open>str\<close> is modelled as a \<^typ>\<open>string\<close>: a list of characters, each character
  standing for the code point of the same number. The characters of the accent table of
  \<open>transform_accents\<close> are U+00C1 .. U+00FC and so are characters of this type. The
  backslash cannot be written inside a string literal and is the constant \<open>BS\<close>.
\<close>

abbreviation BS :: char where "BS \<equiv> CHR 0x5C"
abbreviation NL :: char where "NL \<equiv> CHR 0x0A"

text \<open>Python's \<open>str.isspace\<close> and the class \<open>\s\<close> of \<open>re\<close>, on code points below 256.\<close>

definition is_space :: "char \<Rightarrow> bool" where
  "is_space c = (c \<in> {CHR 0x09, CHR 0x0A, CHR 0x0B, CHR 0x0C, CHR 0x0D,
                       CHR 0x1C, CHR 0x1D, CHR 0x1E, CHR 0x1F, CHR 0x20, CHR 0x85, CHR 0xA0})"

text \<open>The class \<open>\d\<close> of \<open>re\<close>, on code points below 256: the ten ASCII digits.\<close>

definition is_digit :: "char \<Rightarrow> bool" where
  "is_digit c = (c \<in> set ''0123456789'')"

section \<open>The fragment of Python's \<open>re\<close> that the two scripts use\<close>

text \<open>
  Single-character classes: \<open>\s\<close>, \<open>\d\<close>, \<open>\n\<close>, \<open>[^c]\<close>, \<open>.\<close> (no newline) and
  \<open>.\<close> under \<open>re.DOTALL\<close>.
\<close>

datatype cls = Space | Digit | Newline | Except char | Dot | DotAll

fun in_cls :: "cls \<Rightarrow> char \<Rightarrow> bool" where
  "in_cls Space c = is_space c"
| "in_cls Digit c = is_digit c"
| "in_cls Newline c = (c = NL)"
| "in_cls (Except x) c = (c \<noteq> x)"
| "in_cls Dot c = (c \<noteq> NL)"
| "in_cls DotAll c = True"

text \<open>
  Patterns. Every quantifier of the scripts' patterns is applied to a single-character
  class (\<open>\s*\<close>, \<open>\n*\<close>, \<open>[^}]*\<close>, \<open>\s+\<close>, \<open>\d+\<close>, \<open>[^}]+\<close>, \<open>.*?\<close>) or is a
  \<open>?\<close> on a group or a character.
\<close>

datatype re =
    Lit string          \<comment> \<open>a literal text\<close>
  | Star cls            \<comment> \<open>\<open>c*\<close>, greedy\<close>
  | Plus cls            \<comment> \<open>\<open>c+\<close>, greedy\<close>
  | Lazy cls            \<comment> \<open>\<open>c*?\<close>, non-greedy\<close>
  | Opt re              \<comment> \<open>\<open>r?\<close>, greedy\<close>
  | Grp nat re          \<comment> \<open>capturing group number n\<close>
  | Alt re re           \<comment> \<open>\<open>a|b\<close>\<close>
  | Seq re re           \<comment> \<open>concatenation\<close>
  | Ahead re            \<comment> \<open>\<open>(?=r)\<close>\<close>

fun cat :: "re list \<Rightarrow> re" where
  "cat [] = Lit []"
| "cat [r] = r"
| "cat (r # rs) = Seq r (cat rs)"

type_synonym caps = "(nat \<times> string) list"

text \<open>
  The backtracking matcher: every way the pattern matches a prefix of the text, as the
  captured groups and the rest of the text, in the order in which Python's engine tries
  them. The match Python reports is the first.
\<close>

fun run :: "re \<Rightarrow> string \<Rightarrow> caps \<Rightarrow> (caps \<times> string) list" where
  "run (Lit l) s g = (if take (length l) s = l then [(g, drop (length l) s)] else [])"
| "run (Star c) s g =
     map (\<lambda>k. (g, drop k s)) (rev [0 ..< Suc (length (takeWhile (in_cls c) s))])"
| "run (Plus c) s g =
     map (\<lambda>k. (g, drop k s)) (rev [1 ..< Suc (length (takeWhile (in_cls c) s))])"
| "run (Lazy c) s g =
     map (\<lambda>k. (g, drop k s)) [0 ..< Suc (length (takeWhile (in_cls c) s))]"
| "run (Opt r) s g = run r s g @ [(g, s)]"
| "run (Grp n r) s g =
     map (\<lambda>(g', s'). ((n, take (length s - length s') s) # g', s')) (run r s g)"
| "run (Alt a b) s g = run a s g @ run b s g"
| "run (Seq a b) s g = concat (map (\<lambda>(g', s'). run b s' g') (run a s g))"
| "run (Ahead r) s g = (case run r s g of [] \<Rightarrow> [] | (g', _) # _ \<Rightarrow> [(g', s)])"

text \<open>A match object: the text in front of the match, the matched text, the groups, the rest.\<close>

record rmatch =
  prefix_text :: string
  matched :: string
  groups :: caps
  rest :: string

definition group :: "rmatch \<Rightarrow> nat \<Rightarrow> string" where
  "group m n = (if n = 0 then matched m else (case map_of (groups m) n of None \<Rightarrow> [] | Some t \<Rightarrow> t))"

text \<open>\<open>pattern.match\<close> at the start of the text.\<close>

definition match_at :: "re \<Rightarrow> string \<Rightarrow> rmatch option" where
  "match_at r s = (case run r s [] of
       [] \<Rightarrow> None
     | (g, s') # _ \<Rightarrow>
         Some \<lparr>prefix_text = [], matched = take (length s - length s') s, groups = g, rest = s'\<rparr>)"

text \<open>\<open>re.search\<close>: the match at the leftmost position that has one.\<close>

fun re_search :: "re \<Rightarrow> string \<Rightarrow> rmatch option" where
  "re_search r [] = match_at r []"
| "re_search r (c # cs) = (case match_at r (c # cs) of
       Some m \<Rightarrow> Some m
     | None \<Rightarrow> map_option (\<lambda>m. m\<lparr>prefix_text := c # prefix_text m\<rparr>) (re_search r cs))"

text \<open>
  The replacement template of \<open>re.sub\<close>: literal text and group references \<open>\1\<close>.
\<close>

datatype titem = TLit string | TGrp nat

fun expand :: "titem list \<Rightarrow> rmatch \<Rightarrow> string" where
  "expand [] m = []"
| "expand (TLit t # ts) m = t @ expand ts m"
| "expand (TGrp n # ts) m = group m n @ expand ts m"

text \<open>
  \<open>re.sub\<close> and \<open>re.finditer\<close>: the non-overlapping matches from left to right. After
  a non-empty match the scan goes on behind it; where there is no match, or an empty one,
  it moves on by one character. No pattern of the scripts matches the empty text.
\<close>

fun re_sub :: "re \<Rightarrow> titem list \<Rightarrow> string \<Rightarrow> string" where
  "re_sub r tpl s = (case match_at r s of
       None \<Rightarrow> (case s of [] \<Rightarrow> [] | c # cs \<Rightarrow> c # re_sub r tpl cs)
     | Some m \<Rightarrow>
         if matched m \<noteq> [] \<and> length (rest m) < length s
         then expand tpl m @ re_sub r tpl (rest m)
         else expand tpl m @ (case s of [] \<Rightarrow> [] | c # cs \<Rightarrow> c # re_sub r tpl cs))"

fun finditer :: "re \<Rightarrow> string \<Rightarrow> rmatch list" where
  "finditer r s = (case match_at r s of
       None \<Rightarrow> (case s of [] \<Rightarrow> [] | c # cs \<Rightarrow> finditer r cs)
     | Some m \<Rightarrow>
         if matched m \<noteq> [] \<and> length (rest m) < length s
         then m # finditer r (rest m)
         else m # (case s of [] \<Rightarrow> [] | c # cs \<Rightarrow> finditer r cs))"

declare re_sub.simps [simp del] finditer.simps [simp del]

text \<open>\<open>str.replace(old, new)\<close>: every non-overlapping occurrence, from the left.\<close>

function replace_from :: "string \<Rightarrow> string \<Rightarrow> string \<Rightarrow> string" where
  "replace_from old new [] = []"
| "replace_from old new (c # cs) =
     (if old \<noteq> [] \<and> take (length old) (c # cs) = old
      then new @ replace_from old new (drop (length old) (c # cs))
      else c # replace_from old new cs)"
  by pat_completeness auto
termination
  by (relation "measure (\<lambda>(old, new, s). length s)") auto

definition py_replace :: "string \<Rightarrow> string \<Rightarrow> string \<Rightarrow> string" where
  "py_replace old new s =
     (if old = [] then new @ concat (map (\<lambda>c. c # new) s) else replace_from old new s)"

text \<open>\<open>str.endswith\<close>, \<open>str.startswith\<close>.\<close>

definition endswith :: "string \<Rightarrow> string \<Rightarrow> bool" where
  "endswith s t = (length t \<le> length s \<and> drop (length s - length t) s = t)"

definition startswith :: "string \<Rightarrow> string \<Rightarrow> bool" where
  "startswith s t = (take (length t) s = t)"

section \<open>latexdiffcite.py\<close>

datatype exc = AttributeError | ReadError | ValueError | IsADirectoryError | RecursionError
  | FileNotFoundError | OSError

text \<open>\<open>\\begin{thebibliography}.*?\\end{thebibliography}\<close> with \<open>re.DOTALL\<close>.\<close>

definition bib_env_re :: re where
  "bib_env_re = cat [Lit (BS # ''begin{thebibliography}''), Lazy DotAll,
                     Lit (BS # ''end{thebibliography}'')]"

definition extract_bibliography :: "string \<Rightarrow> string" where
  "extract_bibliography text = (case re_search bib_env_re text of
       Some m \<Rightarrow> group m 0 | None \<Rightarrow> [])"

text \<open>\<open>\\begin{thebibliography}{(\d+)}\<close>.\<close>

definition bib_count_re :: re where
  "bib_count_re = cat [Lit (BS # ''begin{thebibliography}{''), Grp 1 (Plus Digit), Lit ''}'']"

text \<open>
  \<open>re.search(...)\<close> returns \<open>None\<close> where the pattern is not found, and \<open>.group(1)\<close> on
  it raises \<open>AttributeError\<close>. The replacement is the template
  \<open>\\begin{thebibliography}{final_num}\<close>; \<open>final_num\<close> is made of digits, so the
  template has no escape but the leading \<open>\\\<close>.
\<close>

definition fix_bibliography_enumeration :: "string \<Rightarrow> string \<Rightarrow> exc + string" where
  "fix_bibliography_enumeration bib_text final_bib_text =
     (case re_search bib_count_re final_bib_text of
        None \<Rightarrow> Inl AttributeError
      | Some m \<Rightarrow>
          (let final_num = group m 1
           in Inr (re_sub bib_count_re
                     [TLit (BS # ''begin{thebibliography}{'' @ final_num @ ''}'')] bib_text)))"

text \<open>The ten substitutions of \<open>clean_difcommands\<close>, in the order of the source.\<close>

definition clean1 :: "string \<Rightarrow> string" where
  "clean1 = re_sub (cat [Lit (BS # ''DIFdelend''), Star Space, Lit (BS # ''DIFaddbegin''),
                         Star Space, Opt (Lit [BS]), Lit ''begin{thebibliography}''])
                   [TLit (BS # ''begin{thebibliography}'')]"

definition clean2 :: "string \<Rightarrow> string" where
  "clean2 = re_sub (cat [Lit (BS # ''DIFaddbegin''), Star Space, Star Newline])
                   [TLit (BS # ''DIFaddbegin '')]"

definition clean3 :: "string \<Rightarrow> string" where
  "clean3 = re_sub (cat [Star Space, Lit (BS # ''DIFaddend''), Star Space, Star Newline])
                   [TLit ('' '' @ BS # ''DIFaddend '')]"

definition clean4 :: "string \<Rightarrow> string" where
  "clean4 = re_sub (cat [Lit (BS # ''DIFdelbegin''), Star Space, Star Newline])
                   [TLit (BS # ''DIFdelbegin '')]"

definition clean5 :: "string \<Rightarrow> string" where
  "clean5 = re_sub (cat [Star Space, Lit (BS # ''DIFdelend''), Star Space, Star Newline])
                   [TLit ('' '' @ BS # ''DIFdelend '')]"

definition clean6 :: "string \<Rightarrow> string" where
  "clean6 = re_sub (cat [Grp 1 (cat [Lit (BS # ''DIFadd{''), Star (Except CHR ''}''), Lit ''}'']),
                         Star Space, Lit [NL], Star Space])
                   [TGrp 1, TLit '' '']"

definition clean7 :: "string \<Rightarrow> string" where
  "clean7 = re_sub (cat [Grp 1 (cat [Lit (BS # ''DIFdel{''), Star (Except CHR ''}''), Lit ''}'']),
                         Star Space, Lit [NL], Star Space])
                   [TGrp 1, TLit '' '']"

definition clean8 :: "string \<Rightarrow> string" where
  "clean8 = re_sub (Plus Space) [TLit '' '']"

definition clean9 :: "string \<Rightarrow> string" where
  "clean9 = re_sub (cat [Lit (BS # ''begin''), Plus Space, Lit ''{'']) [TLit (BS # ''begin{'')]"

definition clean10 :: "string \<Rightarrow> string" where
  "clean10 = re_sub (cat [Lit (BS # ''end''), Plus Space, Lit ''{'']) [TLit (BS # ''end{'')]"

definition clean_difcommands :: "string \<Rightarrow> string" where
  "clean_difcommands text =
     clean10 (clean9 (clean8 (clean7 (clean6 (clean5 (clean4 (clean3 (clean2 (clean1 text)))))))))"

text \<open>
  \<open>process_files\<close>. The run of \<open>latexdiff\<close> is an input: its standard output, its
  standard error when it exits with a non-zero status, or the failure to run it at all.
  The second input is the result of reading the new file. The function returns the text,
  or leaves through \<open>sys.exit(1)\<close>, or raises.
\<close>

datatype diff_run = DiffOk string | DiffFailed string | DiffCrashed string

datatype outcome = Returned string | SysExit nat | Raised exc

text \<open>Lines 69 to 78: the bibliography of the diff, renumbered, cleaned and put back.\<close>

definition repair_bibliography :: "string \<Rightarrow> string \<Rightarrow> exc + string" where
  "repair_bibliography diff_text new_text =
     (let diff_bib = extract_bibliography diff_text;
          new_bib = extract_bibliography new_text
      in if diff_bib \<noteq> [] \<and> new_bib \<noteq> []
         then (case fix_bibliography_enumeration diff_bib new_bib of
                 Inl e \<Rightarrow> Inl e
               | Inr fixed_bib \<Rightarrow>
                   Inr (py_replace diff_bib (clean_difcommands fixed_bib) diff_text))
         else Inr diff_text)"

text \<open>Lines 80 to 87: the final cleanup and the trailing newline.\<close>

definition finish_text :: "string \<Rightarrow> string" where
  "finish_text diff_text =
     (let diff_text2 = clean_difcommands diff_text
      in if \<not> endswith diff_text2 [NL] then diff_text2 @ [NL] else diff_text2)"

definition process_files :: "diff_run \<Rightarrow> exc + string \<Rightarrow> outcome" where
  "process_files latexdiff new_file =
     (case latexdiff of
        DiffFailed err \<Rightarrow> SysExit 1
      | DiffCrashed err \<Rightarrow> SysExit 1
      | DiffOk diff_text \<Rightarrow>
          (case new_file of
             Inl e \<Rightarrow> Raised e
           | Inr new_text \<Rightarrow>
               (case repair_bibliography diff_text new_text of
                  Inl e \<Rightarrow> Raised e
                | Inr diff_text1 \<Rightarrow> Returned (finish_text diff_text1))))"

text \<open>
  The precondition of \<open>fix_bibliography_enumeration\<close> in words: somewhere in the text
  stands \<open>\begin{thebibliography}{\<close>, then one digit or more, then \<open>}\<close>.
\<close>

definition count_marker_at :: "string \<Rightarrow> string \<Rightarrow> bool" where
  "count_marker_at l s =
     (startswith s l
      \<and> takeWhile is_digit (drop (length l) s) \<noteq> []
      \<and> startswith (dropWhile is_digit (drop (length l) s)) ''}'')"

definition count_marker_here :: "string \<Rightarrow> bool" where
  "count_marker_here = count_marker_at (BS # ''begin{thebibliography}{'')"

fun has_count_marker :: "string \<Rightarrow> bool" where
  "has_count_marker [] = False"
| "has_count_marker (c # cs) = (count_marker_here (c # cs) \<or> has_count_marker cs)"

section \<open>tex_concatenator.py: text helpers\<close>

text \<open>\<open>str.split(sep)\<close> for a separator of one character, \<open>str.strip()\<close>,
  \<open>str.lstrip()\<close>, \<open>sep.join(list)\<close> for the newline, and \<open>str(i)\<close> for a natural number.\<close>

fun split_on :: "char \<Rightarrow> string \<Rightarrow> string list" where
  "split_on sep [] = [[]]"
| "split_on sep (x # xs) =
     (if x = sep then [] # split_on sep xs
      else (case split_on sep xs of [] \<Rightarrow> [[x]] | y # ys \<Rightarrow> (x # y) # ys))"

definition lstrip :: "string \<Rightarrow> string" where
  "lstrip s = dropWhile is_space s"

definition strip :: "string \<Rightarrow> string" where
  "strip s = rev (dropWhile is_space (rev (dropWhile is_space s)))"

fun join_nl :: "string list \<Rightarrow> string" where
  "join_nl [] = []"
| "join_nl [x] = x"
| "join_nl (x # y # ys) = x @ NL # join_nl (y # ys)"

definition digit_char :: "nat \<Rightarrow> char" where
  "digit_char n = ''0123456789'' ! n"

function str_nat :: "nat \<Rightarrow> string" where
  "str_nat n = (if n < 10 then [digit_char n] else str_nat (n div 10) @ [digit_char (n mod 10)])"
  by pat_completeness auto
termination
  by (relation "measure id") auto

declare str_nat.simps [simp del]

section \<open>tex_concatenator.py: the flattened bibliography\<close>

text \<open>The block of style definitions that \<open>reorder_bibliography\<close> puts in front.\<close>

definition bib_definitions :: string where
  "bib_definitions =
   [BS] @ ''makeatletter'' @ [NL]
   @ [BS] @ ''providecommand '' @ [BS] @ ''@ifxundefined [1]{%'' @ [NL]
   @ '' '' @ [BS] @ ''@ifx{#1'' @ [BS] @ ''undefined}'' @ [NL]
   @ ''}%'' @ [NL]
   @ [BS] @ ''providecommand '' @ [BS] @ ''@ifnum [1]{%'' @ [NL]
   @ '' '' @ [BS] @ ''ifnum #1'' @ [BS] @ ''expandafter '' @ [BS] @ ''@firstoftwo'' @ [NL]
   @ '' '' @ [BS] @ ''else '' @ [BS] @ ''expandafter '' @ [BS] @ ''@secondoftwo'' @ [NL]
   @ '' '' @ [BS] @ ''fi'' @ [NL]
   @ ''}%'' @ [NL]
   @ [BS] @ ''providecommand '' @ [BS] @ ''@ifx [1]{%'' @ [NL]
   @ '' '' @ [BS] @ ''ifx #1'' @ [BS] @ ''expandafter '' @ [BS] @ ''@firstoftwo'' @ [NL]
   @ '' '' @ [BS] @ ''else '' @ [BS] @ ''expandafter '' @ [BS] @ ''@secondoftwo'' @ [NL]
   @ '' '' @ [BS] @ ''fi'' @ [NL]
   @ ''}%'' @ [NL]
   @ [BS] @ ''providecommand '' @ [BS] @ ''natexlab [1]{#1}%'' @ [NL]
   @ [BS] @ ''providecommand '' @ [BS] @ ''enquote  [1]{``#1'' @ [CHR 0x27] @ [CHR 0x27] @ ''}%'' @ [NL]
   @ [BS] @ ''providecommand '' @ [BS] @ ''bibnamefont  [1]{#1}%'' @ [NL]
   @ [BS] @ ''providecommand '' @ [BS] @ ''bibfnamefont [1]{#1}%'' @ [NL]
   @ [BS] @ ''providecommand '' @ [BS] @ ''citenamefont [1]{#1}%'' @ [NL]
   @ [BS] @ ''providecommand '' @ [BS] @ ''href@noop [0]{'' @ [BS] @ ''@secondoftwo}%'' @ [NL]
   @ [BS] @ ''providecommand '' @ [BS] @ ''href [0]{'' @ [BS] @ ''begingroup '' @ [BS] @ ''@sanitize@url '' @ [BS] @ ''@href}%'' @ [NL]
   @ [BS] @ ''providecommand '' @ [BS] @ ''@href[1]{'' @ [BS] @ ''@@startlink{#1}'' @ [BS] @ ''@@href}%'' @ [NL]
   @ [BS] @ ''providecommand '' @ [BS] @ ''@@href[1]{'' @ [BS] @ ''endgroup#1'' @ [BS] @ ''@@endlink}%'' @ [NL]
   @ [BS] @ ''providecommand '' @ [BS] @ ''@sanitize@url [0]{'' @ [BS] @ ''catcode `'' @ [BS] @ [BS] @ ''12'' @ [BS] @ ''catcode `'' @ [BS] @ ''$12'' @ [BS] @ ''catcode'' @ [NL]
   @ ''  `'' @ [BS] @ ''&12'' @ [BS] @ ''catcode `'' @ [BS] @ ''#12'' @ [BS] @ ''catcode `'' @ [BS] @ ''^12'' @ [BS] @ ''catcode `'' @ [BS] @ ''_12'' @ [BS] @ ''catcode `'' @ [BS] @ ''%12'' @ [BS] @ ''relax}%'' @ [NL]
   @ [BS] @ ''providecommand '' @ [BS] @ ''@@startlink[1]{}%'' @ [NL]
   @ [BS] @ ''providecommand '' @ [BS] @ ''@@endlink[0]{}%'' @ [NL]
   @ [BS] @ ''providecommand '' @ [BS] @ ''url  [0]{'' @ [BS] @ ''begingroup'' @ [BS] @ ''@sanitize@url '' @ [BS] @ ''@url }%'' @ [NL]
   @ [BS] @ ''providecommand '' @ [BS] @ ''@url [1]{'' @ [BS] @ ''endgroup'' @ [BS] @ ''@href {#1}{'' @ [BS] @ ''urlprefix }}%'' @ [NL]
   @ [BS] @ ''providecommand '' @ [BS] @ ''urlprefix  [0]{URL }%'' @ [NL]
   @ [BS] @ ''providecommand '' @ [BS] @ ''Eprint [0]{'' @ [BS] @ ''href }%'' @ [NL]
   @ [BS] @ ''providecommand '' @ [BS] @ ''doibase [0]{https://doi.org/}%'' @ [NL]
   @ [BS] @ ''providecommand '' @ [BS] @ ''selectlanguage [0]{'' @ [BS] @ ''@gobble}%'' @ [NL]
   @ [BS] @ ''providecommand '' @ [BS] @ ''bibinfo  [0]{'' @ [BS] @ ''@secondoftwo}%'' @ [NL]
   @ [BS] @ ''providecommand '' @ [BS] @ ''bibfield  [0]{'' @ [BS] @ ''@secondoftwo}%'' @ [NL]
   @ [BS] @ ''providecommand '' @ [BS] @ ''translation [1]{[#1]}%'' @ [NL]
   @ [BS] @ ''providecommand '' @ [BS] @ ''BibitemOpen [0]{}%'' @ [NL]
   @ [BS] @ ''providecommand '' @ [BS] @ ''bibitemStop [0]{}%'' @ [NL]
   @ [BS] @ ''providecommand '' @ [BS] @ ''bibitemNoStop [0]{.'' @ [BS] @ ''EOS'' @ [BS] @ ''space}%'' @ [NL]
   @ [BS] @ ''providecommand '' @ [BS] @ ''EOS [0]{'' @ [BS] @ ''spacefactor3000'' @ [BS] @ ''relax}%'' @ [NL]
   @ [BS] @ ''providecommand '' @ [BS] @ ''BibitemShut  [1]{'' @ [BS] @ ''csname bibitem#1'' @ [BS] @ ''endcsname}%'' @ [NL]
   @ [BS] @ ''let'' @ [BS] @ ''auto@bib@innerbib'' @ [BS] @ ''@empty'' @ [NL]
   @ ''%</preamble>'' @ [NL]"

text \<open>
  \<open>\\bibitem\s*(?:\[[^]]*\])?\s*\{([^}]+)\}(.*?)(?=\\bibitem|\s*\\end\{thebibliography\})\<close>
  with \<open>re.DOTALL\<close>.
\<close>

definition bibitem_re :: re where
  "bibitem_re = cat [Lit (BS # ''bibitem''), Star Space,
                     Opt (cat [Lit ''['', Star (Except CHR '']''), Lit '']'']),
                     Star Space, Lit ''{'', Grp 1 (Plus (Except CHR ''}'')), Lit ''}'',
                     Grp 2 (Lazy DotAll),
                     Ahead (Alt (Lit (BS # ''bibitem''))
                                (cat [Star Space, Lit (BS # ''end{thebibliography}'')]))]"

text \<open>
  A Python \<open>dict\<close> with string keys, as the list of its items in insertion order:
  storing under a key that is there replaces the value and keeps the place.
\<close>

type_synonym pydict = "(string \<times> string) list"

fun dict_set :: "pydict \<Rightarrow> string \<Rightarrow> string \<Rightarrow> pydict" where
  "dict_set [] k v = [(k, v)]"
| "dict_set ((k', v') # d) k v = (if k' = k then (k, v) # d else (k', v') # dict_set d k v)"

text \<open>\<open>{match.group(1): match.group(2).strip() for match in bibitems}\<close>\<close>

definition bibitem_dict :: "string \<Rightarrow> pydict" where
  "bibitem_dict bbl_content =
     foldl (\<lambda>d m. dict_set d (group m 1) (strip (group m 2))) [] (finditer bibitem_re bbl_content)"

text \<open>\<open>\\begin\{thebibliography\}\{[^}]*\}\<close>\<close>

definition bib_begin_re :: re where
  "bib_begin_re = cat [Lit (BS # ''begin{thebibliography}{''), Star (Except CHR ''}''), Lit ''}'']"

text \<open>The loop over \<open>enumerate(citations, 1)\<close>: the items appended to \<open>new_bbl\<close>.\<close>

definition numbered_bibitem :: "nat \<Rightarrow> string \<Rightarrow> string \<Rightarrow> string" where
  "numbered_bibitem i cite_key body =
     BS # ''bibitem [{'' @ str_nat i @ ''}] {'' @ cite_key @ ''}'' @ body"

fun numbered_items :: "nat \<Rightarrow> string list \<Rightarrow> pydict \<Rightarrow> string list" where
  "numbered_items i [] d = []"
| "numbered_items i (cite_key # ks) d =
     (case map_of d cite_key of
        Some body \<Rightarrow> numbered_bibitem i cite_key body # numbered_items (Suc i) ks d
      | None \<Rightarrow> numbered_items (Suc i) ks d)"

text \<open>
  The items between the begin marker and the end marker. \<open>citations\<close> is \<open>None\<close> or a
  list; \<open>None\<close> and the empty list are both false in \<open>if ... and citations\<close>.
\<close>

definition bibliography_items :: "bool \<Rightarrow> string list option \<Rightarrow> pydict \<Rightarrow> string list" where
  "bibliography_items fix_reference_numbers citations d =
     (case citations of
        Some (c # cs) \<Rightarrow>
          if fix_reference_numbers then numbered_items 1 (c # cs) d
          else map (\<lambda>(cite_key, body). BS # ''bibitem {'' @ cite_key @ ''}'' @ body) d
      | _ \<Rightarrow> map (\<lambda>(cite_key, body). BS # ''bibitem {'' @ cite_key @ ''}'' @ body) d)"

definition reorder_bibliography :: "bool \<Rightarrow> string \<Rightarrow> string list option \<Rightarrow> string" where
  "reorder_bibliography fix_reference_numbers bbl_content citations =
     (let d = bibitem_dict bbl_content
      in case re_search bib_begin_re bbl_content of
           None \<Rightarrow> bbl_content
         | Some begin_match \<Rightarrow>
             join_nl ([bib_definitions, group begin_match 0]
                      @ bibliography_items fix_reference_numbers citations d
                      @ [BS # ''end{thebibliography}'']))"

text \<open>\<open>\\cite\{([^}]+)\}\<close>, and the keys of all citation commands, in document order.\<close>

definition cite_re :: re where
  "cite_re = cat [Lit (BS # ''cite{''), Grp 1 (Plus (Except CHR ''}'')), Lit ''}'']"

definition cited_keys :: "string \<Rightarrow> string list" where
  "cited_keys content =
     concat (map (\<lambda>m. map strip (split_on CHR '','' (group m 1))) (finditer cite_re content))"

text \<open>\<open>[x for x in citations if not (x in seen or seen.add(x))]\<close>\<close>

fun dedup :: "string set \<Rightarrow> string list \<Rightarrow> string list" where
  "dedup seen [] = []"
| "dedup seen (x # xs) = (if x \<in> seen then dedup seen xs else x # dedup (insert x seen) xs)"

definition extract_citations :: "string \<Rightarrow> string list" where
  "extract_citations content = dedup {} (cited_keys content)"

text \<open>\<open>\\bibliography\{.*?\}\<close> and \<open>(\s*)\\bibliography\{.*?\}(\s*)\<close>\<close>

definition bibliography_re :: re where
  "bibliography_re = cat [Lit (BS # ''bibliography{''), Lazy Dot, Lit ''}'']"

definition bibliography_spaced_re :: re where
  "bibliography_spaced_re =
     cat [Grp 1 (Star Space), Lit (BS # ''bibliography{''), Lazy Dot, Lit ''}'', Grp 2 (Star Space)]"

text \<open>
  \<open>process_bibliography\<close>. The compiled bibliography, the result of
  \<open>generate_bbl_content\<close>, is an input; the result is the new content and the warnings
  printed.
\<close>

definition process_bibliography :: "bool \<Rightarrow> string \<Rightarrow> string \<Rightarrow> string \<times> string list" where
  "process_bibliography fix_reference_numbers bbl_content content =
     (case re_search bibliography_re content of
        None \<Rightarrow> (content, [])
      | Some bib_match \<Rightarrow>
          if bbl_content = [] then (content, [''Warning: Could not generate bibliography''])
          else
            (let citations = extract_citations content;
                 bbl = reorder_bibliography fix_reference_numbers bbl_content (Some citations)
             in case re_search bibliography_spaced_re content of
                  Some full_match \<Rightarrow>
                    (py_replace (group full_match 0)
                       (group full_match 1 @ bbl @ group full_match 2) content, [])
                | None \<Rightarrow> (content, [])))"

section \<open>tex_concatenator.py: flattening the includes\<close>

text \<open>
  The accent table of \<open>transform_accents\<close>, in the order of the source: the acute vowels
  U+00E1, E9, ED, F3, FA and U+00C1, C9, CD, D3, DA, the n with tilde U+00F1, D1, and the
  umlauts U+00FC, DC, F6, D6, E4, C4. \<open>CHR 0x27\<close> is the apostrophe and \<open>CHR 0x22\<close> the
  double quote.
\<close>

definition accent_map :: "(char \<times> string) list" where
  "accent_map =
    [(CHR 0xE1, [CHR ''{'', BS, CHR 0x27, CHR ''a'', CHR ''}'']),
     (CHR 0xE9, [CHR ''{'', BS, CHR 0x27, CHR ''e'', CHR ''}'']),
     (CHR 0xED, [CHR ''{'', BS, CHR 0x27, CHR ''i'', CHR ''}'']),
     (CHR 0xF3, [CHR ''{'', BS, CHR 0x27, CHR ''o'', CHR ''}'']),
     (CHR 0xFA, [CHR ''{'', BS, CHR 0x27, CHR ''u'', CHR ''}'']),
     (CHR 0xC1, [CHR ''{'', BS, CHR 0x27, CHR ''A'', CHR ''}'']),
     (CHR 0xC9, [CHR ''{'', BS, CHR 0x27, CHR ''E'', CHR ''}'']),
     (CHR 0xCD, [CHR ''{'', BS, CHR 0x27, CHR ''I'', CHR ''}'']),
     (CHR 0xD3, [CHR ''{'', BS, CHR 0x27, CHR ''O'', CHR ''}'']),
     (CHR 0xDA, [CHR ''{'', BS, CHR 0x27, CHR ''U'', CHR ''}'']),
     (CHR 0xF1, [CHR ''{'', BS, CHR ''~'', CHR ''n'', CHR ''}'']),
     (CHR 0xD1, [CHR ''{'', BS, CHR ''~'', CHR ''N'', CHR ''}'']),
     (CHR 0xFC, [CHR ''{'', BS, CHR 0x22, CHR ''u'', CHR ''}'']),
     (CHR 0xDC, [CHR ''{'', BS, CHR 0x22, CHR ''U'', CHR ''}'']),
     (CHR 0xF6, [CHR ''{'', BS, CHR 0x22, CHR ''o'', CHR ''}'']),
     (CHR 0xD6, [CHR ''{'', BS, CHR 0x22, CHR ''O'', CHR ''}'']),
     (CHR 0xE4, [CHR ''{'', BS, CHR 0x22, CHR ''a'', CHR ''}'']),
     (CHR 0xC4, [CHR ''{'', BS, CHR 0x22, CHR ''A'', CHR ''}''])]"

definition transform_accents :: "string \<Rightarrow> string" where
  "transform_accents text = foldl (\<lambda>t (c, replacement). py_replace [c] replacement t) text accent_map"

text \<open>\<open>\\(input|include)\{(.*?)\}\<close>\<close>

definition include_re :: re where
  "include_re = cat [Lit [BS], Grp 1 (Alt (Lit ''input'') (Lit ''include'')), Lit ''{'',
                     Grp 2 (Lazy Dot), Lit ''}'']"

text \<open>
  The files, as \<open>pathlib\<close> and the file system show them to \<open>process_file\<close>. A path is
  a value of any type \<open>'p\<close>. \<open>read_utf8\<close> is \<open>read_text(encoding='utf-8')\<close>: the
  text, a \<open>UnicodeDecodeError\<close>, or another error; \<open>read_latin1\<close> is the second read;
  \<open>include_path p name\<close> is \<open>(p.parent / name).with_suffix('.tex')\<close>, which can raise
  \<open>ValueError\<close>; \<open>path_str\<close> is \<open>str(path)\<close>.
\<close>

datatype utf8_read = Text string | DecodeError | ReadFailed exc

record 'p files =
  read_utf8 :: "'p \<Rightarrow> utf8_read"
  read_latin1 :: "'p \<Rightarrow> exc + string"
  path_exists :: "'p \<Rightarrow> bool"
  include_path :: "'p \<Rightarrow> string \<Rightarrow> exc + 'p"
  path_str :: "'p \<Rightarrow> string"

definition read_content :: "'p files \<Rightarrow> 'p \<Rightarrow> exc + string" where
  "read_content fs file_path = (case read_utf8 fs file_path of
       Text t \<Rightarrow> Inr t
     | DecodeError \<Rightarrow> read_latin1 fs file_path
     | ReadFailed e \<Rightarrow> Inl e)"

text \<open>
  The body of the loop over the lines: the lines it appends to \<open>processed_lines\<close> and
  the warnings it prints, or the exception that leaves the loop. \<open>recurse\<close> is the
  recursive call \<open>self.process_file\<close>.
\<close>

definition process_line ::
  "('p \<Rightarrow> exc + string \<times> string list) \<Rightarrow> 'p files \<Rightarrow> 'p \<Rightarrow> string
     \<Rightarrow> exc + string list \<times> string list" where
  "process_line recurse fs file_path line =
     (if strip line = [] then Inr ([line], [])
      else if startswith (lstrip line) ''%'' then Inr ([line], [])
      else (case re_search include_re line of
              None \<Rightarrow> Inr ([line], [])
            | Some input_match \<Rightarrow>
                (let indent = take (length line - length (lstrip line)) line;
                     include_file = group input_match 2
                 in case include_path fs file_path include_file of
                      Inl e \<Rightarrow> Inl e
                    | Inr inc \<Rightarrow>
                        if path_exists fs inc
                        then (case recurse inc of
                                Inl e \<Rightarrow> Inl e
                              | Inr (included_content, warnings) \<Rightarrow>
                                  Inr (map (\<lambda>l. indent @ l) (split_on NL included_content),
                                       warnings))
                        else Inr ([line],
                                  [''Warning: Could not find included file: '' @ path_str fs inc]))))"

text \<open>The loop: the lines in order, stopping at the first exception.\<close>

fun process_lines ::
  "(string \<Rightarrow> exc + string list \<times> string list) \<Rightarrow> string list \<Rightarrow> exc + string list \<times> string list"
  where
  "process_lines f [] = Inr ([], [])"
| "process_lines f (line # ls) =
     (case f line of
        Inl e \<Rightarrow> Inl e
      | Inr (out, warnings) \<Rightarrow>
          (case process_lines f ls of
             Inl e \<Rightarrow> Inl e
           | Inr (outs, warnings') \<Rightarrow> Inr (out @ outs, warnings @ warnings')))"

text \<open>
  \<open>process_file\<close>: the flattened text and the warnings printed. The recursion of the
  source has no guard against a file that includes itself; the first argument is the
  depth Python's recursion limit leaves, and at depth 0 the call raises
  \<open>RecursionError\<close>.
\<close>

fun process_file :: "nat \<Rightarrow> 'p files \<Rightarrow> 'p \<Rightarrow> exc + string \<times> string list" where
  "process_file 0 fs file_path = Inl RecursionError"
| "process_file (Suc depth) fs file_path =
     (case read_content fs file_path of
        Inl e \<Rightarrow> Inl e
      | Inr raw \<Rightarrow>
          (let content = transform_accents raw;
               lines = split_on NL content
           in case process_lines (process_line (process_file depth fs) fs file_path) lines of
                Inl e \<Rightarrow> Inl e
              | Inr (processed_lines, warnings) \<Rightarrow> Inr (join_nl processed_lines, warnings)))"

section \<open>tex_concatenator.py: copying the bibliography files\<close>

text \<open>
  Paths as \<open>pathlib\<close> keeps them: the list of the parts. \<open>p / s\<close> splits \<open>s\<close> at the
  slashes and drops empty parts and \<open>.\<close>; an absolute \<open>s\<close> replaces \<open>p\<close> (the root is
  the part \<open>/\<close>). \<open>name\<close>, \<open>suffix\<close>, \<open>stem\<close>, \<open>with_name\<close> and \<open>with_stem\<close>
  follow \<open>pathlib.PurePath\<close>: the suffix starts at the last dot of the name, unless that
  dot is the first or the last character.
\<close>

type_synonym path = "string list"

definition path_parts :: "string \<Rightarrow> string list" where
  "path_parts s = filter (\<lambda>c. c \<noteq> [] \<and> c \<noteq> ''.'') (split_on CHR ''/'' s)"

definition path_join :: "path \<Rightarrow> string \<Rightarrow> path" where
  "path_join p s = (if startswith s ''/'' \<and> s \<noteq> [] then ''/'' # path_parts s else p @ path_parts s)"

definition path_name :: "path \<Rightarrow> string" where
  "path_name p = (if p = [] \<or> p = [''/''] then [] else last p)"

definition rfind_dot :: "string \<Rightarrow> nat option" where
  "rfind_dot n = (if CHR ''.'' \<in> set n
                  then Some (length n - 1 - length (takeWhile (\<lambda>c. c \<noteq> CHR ''.'') (rev n)))
                  else None)"

definition path_suffix :: "path \<Rightarrow> string" where
  "path_suffix p = (let n = path_name p in
     case rfind_dot n of
       Some i \<Rightarrow> if 0 < i \<and> i < length n - 1 then drop i n else []
     | None \<Rightarrow> [])"

definition path_stem :: "path \<Rightarrow> string" where
  "path_stem p = (let n = path_name p in
     case rfind_dot n of
       Some i \<Rightarrow> if 0 < i \<and> i < length n - 1 then take i n else n
     | None \<Rightarrow> n)"

definition with_name :: "path \<Rightarrow> string \<Rightarrow> exc + path" where
  "with_name p n =
     (if path_name p = [] then Inl ValueError
      else if n = [] \<or> CHR ''/'' \<in> set n \<or> n = ''.'' then Inl ValueError
      else Inr (butlast p @ [n]))"

definition with_stem :: "path \<Rightarrow> string \<Rightarrow> exc + path" where
  "with_stem p s = with_name p (s @ path_suffix p)"

fun path_to_str :: "path \<Rightarrow> string" where
  "path_to_str [] = ''.''"
| "path_to_str [c] = c"
| "path_to_str (c # d # ds) = (if c = ''/'' then c @ path_to_str (d # ds)
                               else c @ ''/'' @ path_to_str (d # ds))"

text \<open>
  The file system: the entries by path, the first entry of a path being the current
  one. \<open>shutil.copy\<close> writes the data of the source under the destination, replacing a
  file that is there; into an existing directory it copies under the source's name.
\<close>

datatype entry = File string | Dir

type_synonym filesystem = "(path \<times> entry) list"

definition exists :: "filesystem \<Rightarrow> path \<Rightarrow> bool" where
  "exists fs p = (map_of fs p \<noteq> None)"

definition shutil_copy :: "filesystem \<Rightarrow> path \<Rightarrow> path \<Rightarrow> exc + filesystem" where
  "shutil_copy fs src dst =
     (case map_of fs src of
        None \<Rightarrow> Inl FileNotFoundError
      | Some Dir \<Rightarrow> Inl IsADirectoryError
      | Some (File data) \<Rightarrow>
          (case map_of fs dst of
             Some Dir \<Rightarrow> Inr ((dst @ [path_name src], File data) # fs)
           | _ \<Rightarrow> Inr ((dst, File data) # fs)))"

text \<open>
  \<open>get_unique_filename\<close>. The loop \<open>while True\<close> has no bound: the function is
  partial, and \<open>None\<close> is the run that never returns.
\<close>

partial_function (option) unique_from :: "filesystem \<Rightarrow> path \<Rightarrow> nat \<Rightarrow> (exc + path) option" where
  "unique_from fs target_path counter =
     (case with_stem target_path (path_stem target_path @ ''_'' @ str_nat counter) of
        Inl e \<Rightarrow> Some (Inl e)
      | Inr new_name \<Rightarrow>
          if \<not> exists fs new_name then Some (Inr new_name)
          else unique_from fs target_path (counter + 1))"

declare unique_from.simps [code]

definition get_unique_filename :: "filesystem \<Rightarrow> path \<Rightarrow> (exc + path) option" where
  "get_unique_filename fs target_path =
     (if \<not> exists fs target_path then Some (Inr target_path)
      else unique_from fs target_path 1)"

text \<open>\<open>\\bibliography\{(.*?)\}\<close>\<close>

definition bib_files_re :: re where
  "bib_files_re = cat [Lit (BS # ''bibliography{''), Grp 1 (Lazy Dot), Lit ''}'']"

text \<open>
  The body of the loop over the names of one \<open>\bibliography\<close> command, for one name:
  the new name appended to \<open>renamed_files\<close> if a file was found, the file system and the
  lines printed.
\<close>

definition copy_bib_file ::
  "path \<Rightarrow> path \<Rightarrow> filesystem \<Rightarrow> string
     \<Rightarrow> (exc + string option \<times> filesystem \<times> string list) option" where
  "copy_bib_file project_dir output_dir fs bib_file0 =
     (let bib_file = strip bib_file0;
          bib_paths = [path_join project_dir bib_file, path_join project_dir (bib_file @ ''.bib'')]
      in case filter (exists fs) bib_paths of
           [] \<Rightarrow> Some (Inr (None, fs, [''Warning: Could not find bibliography file: '' @ bib_file]))
         | bib_path # _ \<Rightarrow>
             (let target_name = (if path_suffix bib_path = ''.bib'' then path_name bib_path
                                 else path_name bib_path @ ''.bib'');
                  target_path = path_join output_dir target_name
              in case get_unique_filename fs target_path of
                   None \<Rightarrow> None
                 | Some (Inl e) \<Rightarrow> Some (Inl e)
                 | Some (Inr actual_target) \<Rightarrow>
                     (case shutil_copy fs bib_path actual_target of
                        Inl e \<Rightarrow> Some (Inl e)
                      | Inr fs' \<Rightarrow>
                          Some (Inr (Some (path_stem actual_target), fs',
                                     [''Copied bibliography file to: '' @ path_to_str actual_target])))))"

text \<open>The loop over the names: \<open>renamed_files\<close>, the file system, the lines printed.\<close>

fun copy_bib_files ::
  "path \<Rightarrow> path \<Rightarrow> filesystem \<Rightarrow> string list
     \<Rightarrow> (exc + string list \<times> filesystem \<times> string list) option" where
  "copy_bib_files project_dir output_dir fs [] = Some (Inr ([], fs, []))"
| "copy_bib_files project_dir output_dir fs (bib_file # bs) =
     (case copy_bib_file project_dir output_dir fs bib_file of
        None \<Rightarrow> None
      | Some (Inl e) \<Rightarrow> Some (Inl e)
      | Some (Inr (new_name, fs', printed)) \<Rightarrow>
          (case copy_bib_files project_dir output_dir fs' bs of
             None \<Rightarrow> None
           | Some (Inl e) \<Rightarrow> Some (Inl e)
           | Some (Inr (renamed, fs'', printed')) \<Rightarrow>
               Some (Inr ((case new_name of None \<Rightarrow> [] | Some n \<Rightarrow> [n]) @ renamed, fs'',
                          printed @ printed'))))"

text \<open>\<open>','.join(renamed_files)\<close>\<close>

fun join_comma :: "string list \<Rightarrow> string" where
  "join_comma [] = []"
| "join_comma [x] = x"
| "join_comma (x # y # ys) = x @ '','' @ join_comma (y # ys)"

text \<open>The body of the loop over the \<open>\bibliography\<close> commands, for one match.\<close>

definition copy_bib_command ::
  "path \<Rightarrow> path \<Rightarrow> string \<times> filesystem \<times> string list \<Rightarrow> rmatch
     \<Rightarrow> (exc + string \<times> filesystem \<times> string list) option" where
  "copy_bib_command project_dir output_dir state m =
     (case state of (content, fs, printed) \<Rightarrow>
        (case copy_bib_files project_dir output_dir fs (split_on CHR '','' (group m 1)) of
           None \<Rightarrow> None
         | Some (Inl e) \<Rightarrow> Some (Inl e)
         | Some (Inr (renamed_files, fs', printed')) \<Rightarrow>
             Some (Inr (if renamed_files \<noteq> []
                        then py_replace (group m 0)
                               (BS # ''bibliography{'' @ join_comma renamed_files @ ''}'') content
                        else content,
                        fs', printed @ printed'))))"

fun copy_bib_commands ::
  "path \<Rightarrow> path \<Rightarrow> string \<times> filesystem \<times> string list \<Rightarrow> rmatch list
     \<Rightarrow> (exc + string \<times> filesystem \<times> string list) option" where
  "copy_bib_commands project_dir output_dir state [] = Some (Inr state)"
| "copy_bib_commands project_dir output_dir state (m # ms) =
     (case copy_bib_command project_dir output_dir state m of
        None \<Rightarrow> None
      | Some (Inl e) \<Rightarrow> Some (Inl e)
      | Some (Inr state') \<Rightarrow> copy_bib_commands project_dir output_dir state' ms)"

text \<open>
  \<open>copy_bibliography\<close>: the new content, the file system and the lines printed. The
  matches are those of the content as it was passed in.
\<close>

definition copy_bibliography ::
  "path \<Rightarrow> path \<Rightarrow> filesystem \<Rightarrow> string \<Rightarrow> (exc + string \<times> filesystem \<times> string list) option" where
  "copy_bibliography project_dir output_dir fs content =
     copy_bib_commands project_dir output_dir (content, fs, []) (finditer bib_files_re content)"

section \<open>tex_concatenator.py: compiling the bibliography\<close>

text \<open>
  The state \<open>generate_bbl_content\<close> acts on: the working directory of the process, the
  file system and the lines printed. The world outside the script is a record of
  functions: \<open>mkdtemp\<close> creates the temporary directory, \<open>copytree\<close> copies the
  project, \<open>os_system\<close> runs a command in a directory and changes files (a child process
  cannot change the working directory of the script), \<open>read_bbl\<close> reads a file as
  UTF-8. Each of them can raise. \<open>os.chdir\<close> raises when its target is not a directory
  and then leaves the working directory as it is.
\<close>

record world =
  cwd :: path
  fsys :: filesystem
  out_lines :: "string list"

record os_env =
  mkdtemp :: "filesystem \<Rightarrow> exc + path \<times> filesystem"
  copytree :: "filesystem \<Rightarrow> path \<Rightarrow> path \<Rightarrow> exc + filesystem"
  os_system :: "string \<Rightarrow> path \<Rightarrow> filesystem \<Rightarrow> exc + filesystem"
  read_bbl :: "filesystem \<Rightarrow> path \<Rightarrow> utf8_read"

definition is_dir :: "filesystem \<Rightarrow> path \<Rightarrow> bool" where
  "is_dir fs p = (map_of fs p = Some Dir)"

definition os_chdir :: "world \<Rightarrow> path \<Rightarrow> exc + world" where
  "os_chdir w p = (if is_dir (fsys w) p then Inr (w\<lparr>cwd := p\<rparr>) else Inl FileNotFoundError)"

text \<open>The end of \<open>with tempfile.TemporaryDirectory()\<close>: the directory and all below it go.\<close>

definition cleanup :: "filesystem \<Rightarrow> path \<Rightarrow> filesystem" where
  "cleanup fs temp_dir = filter (\<lambda>(p, e). \<not> prefix temp_dir p) fs"

text \<open>The four commands, in order; the first that raises ends the sequence.\<close>

fun run_commands :: "os_env \<Rightarrow> string list \<Rightarrow> world \<Rightarrow> exc + world" where
  "run_commands env [] w = Inr w"
| "run_commands env (c # cs) w =
     (case os_system env c (cwd w) (fsys w) of
        Inl e \<Rightarrow> Inl e
      | Inr fs' \<Rightarrow> run_commands env cs (w\<lparr>fsys := fs'\<rparr>))"

text \<open>
  The body of \<open>try\<close>: the value returned (the empty text where the source falls through
  to \<open>return ""\<close>) or the exception, and the state. \<open>tex_name\<close> and \<open>tex_stem\<close> are
  \<open>self.tex_file.name\<close> and \<open>self.tex_file.stem\<close>.
\<close>

definition compile_and_read :: "os_env \<Rightarrow> string \<Rightarrow> string \<Rightarrow> world \<Rightarrow> (exc + string) \<times> world" where
  "compile_and_read env tex_name tex_stem w =
     (case run_commands env
             [''pdflatex -interaction=nonstopmode '' @ tex_name,
              ''bibtex '' @ tex_stem,
              ''pdflatex -interaction=nonstopmode '' @ tex_name,
              ''pdflatex -interaction=nonstopmode '' @ tex_name] w of
        Inl e \<Rightarrow> (Inl e, w)
      | Inr w' \<Rightarrow>
          (let bbl_file = path_join (cwd w') (tex_stem @ ''.bbl'')
           in if exists (fsys w') bbl_file
              then (case read_bbl env (fsys w') bbl_file of
                      Text bbl_content \<Rightarrow>
                        (case re_search bib_env_re bbl_content of
                           Some bib_match \<Rightarrow> (Inr (group bib_match 0), w')
                         | None \<Rightarrow> (Inr [], w'))
                    | DecodeError \<Rightarrow>
                        (Inr [], w'\<lparr>out_lines := out_lines w' @ [''Warning: BBL file encoding issue'']\<rparr>)
                    | ReadFailed e \<Rightarrow> (Inl e, w'))
              else (Inr [], w')))"

text \<open>
  Inside the \<open>with\<close> block: the copy, \<open>original_dir = os.getcwd()\<close>, the change of
  directory, \<open>try\<close>, and \<open>finally: os.chdir(original_dir)\<close>, whose exception, if it
  raises, replaces the result of \<open>try\<close>.
\<close>

definition in_temp_dir ::
  "os_env \<Rightarrow> path \<Rightarrow> string \<Rightarrow> string \<Rightarrow> path \<Rightarrow> world \<Rightarrow> (exc + string) \<times> world" where
  "in_temp_dir env project_dir tex_name tex_stem temp_dir w =
     (let work = path_join temp_dir (path_name project_dir)
      in case copytree env (fsys w) project_dir work of
           Inl e \<Rightarrow> (Inl e, w)
         | Inr fs' \<Rightarrow>
             (let w1 = w\<lparr>fsys := fs'\<rparr>;
                  original_dir = cwd w1
              in case os_chdir w1 work of
                   Inl e \<Rightarrow> (Inl e, w1)
                 | Inr w2 \<Rightarrow>
                     (case compile_and_read env tex_name tex_stem w2 of
                        (result, w3) \<Rightarrow>
                          (case os_chdir w3 original_dir of
                             Inl e \<Rightarrow> (Inl e, w3)
                           | Inr w4 \<Rightarrow> (result, w4)))))"

definition generate_bbl_content ::
  "os_env \<Rightarrow> path \<Rightarrow> string \<Rightarrow> string \<Rightarrow> world \<Rightarrow> (exc + string) \<times> world" where
  "generate_bbl_content env project_dir tex_name tex_stem w =
     (case mkdtemp env (fsys w) of
        Inl e \<Rightarrow> (Inl e, w)
      | Inr (temp_dir, fs') \<Rightarrow>
          (case in_temp_dir env project_dir tex_name tex_stem temp_dir (w\<lparr>fsys := fs'\<rparr>) of
             (result, w') \<Rightarrow> (result, w'\<lparr>fsys := cleanup (fsys w') temp_dir\<rparr>)))"

text \<open>
  An outside world in which the temporary directory is \<open>/tmp/t\<close>, the copy makes the
  working copy of the project, and every command raises.
\<close>

definition failing_env :: os_env where
  "failing_env =
     \<lparr>mkdtemp = (\<lambda>fs. Inr ([''/'', ''tmp'', ''t''], ([''/'', ''tmp'', ''t''], Dir) # fs)),
      copytree = (\<lambda>fs src dst. Inr ((dst, Dir) # fs)),
      os_system = (\<lambda>cmd dir fs. Inl OSError),
      read_bbl = (\<lambda>fs p. ReadFailed OSError)\<rparr>"

definition home_world :: world where
  "home_world = \<lparr>cwd = [''/'', ''home''],
                  fsys = [([''/'', ''home''], Dir), ([''/'', ''proj''], Dir)],
                  out_lines = []\<rparr>"



text \<open>
  The path \<open>get_unique_filename\<close> tries at the counter \<open>k\<close>: the target with \<open>_k\<close>
  appended to its stem.
\<close>

definition numbered_variant :: "path \<Rightarrow> nat \<Rightarrow> path" where
  "numbered_variant t k = butlast t @ [path_stem t @ ''_'' @ str_nat k @ path_suffix t]"

text \<open>
  A project with \<open>proj/a.bib\<close>, and an output directory where \<open>a.bib\<close> and \<open>a_1.bib\<close>
  are taken.
\<close>

definition example_project :: filesystem where
  "example_project =
     [([''proj'', ''a.bib''], File ''A''),
      ([''out'', ''a.bib''], File ''old''),
      ([''out'', ''a_1.bib''], File ''old1'')]"

text \<open>
  A project of one file, \<open>main.tex\<close>, whose only line is a comment with an accented
  word and an include of a file that does not exist.
\<close>

definition accent_comment_files :: "string files" where
  "accent_comment_files =
     \<lparr>read_utf8 = (\<lambda>p. if p = ''main.tex''
                          then Text (''% caf'' @ [CHR 0xE9] @ '' '' @ BS # ''input{nofile}'')
                          else ReadFailed ReadError),
      read_latin1 = (\<lambda>p. Inl ReadError),
      path_exists = (\<lambda>p. False),
      include_path = (\<lambda>p name. Inr (name @ ''.tex'')),
      path_str = (\<lambda>p. p)\<rparr>"


section \<open>Properties of the matcher\<close>

lemma run_suffix: "(g', s') \<in> set (run r s g) \<Longrightarrow> suffix s' s"
proof (induction r arbitrary: s g g' s')
  case (Lit l)
  then show ?case by (auto split: if_splits simp: suffix_drop)
next
  case (Star c) then show ?case by (auto simp: suffix_drop)
next
  case (Plus c) then show ?case by (auto simp: suffix_drop)
next
  case (Lazy c) then show ?case by (auto simp: suffix_drop)
next
  case (Opt r) then show ?case by auto
next
  case (Grp n r) then show ?case by auto
next
  case (Alt a b) then show ?case by auto
next
  case (Seq a b)
  then show ?case by (fastforce intro: suffix_order.trans)
next
  case (Ahead r) then show ?case by (auto split: list.splits)
qed

lemma match_at_Some:
  assumes "match_at r s = Some m"
  shows "s = matched m @ rest m" and "prefix_text m = []"
proof -
  obtain g s' xs where r: "run r s [] = (g, s') # xs" and m: "m = \<lparr>prefix_text = [], matched = take (length s - length s') s, groups = g, rest = s'\<rparr>"
    using assms by (auto simp: match_at_def split: list.splits)
  have "suffix s' s" using run_suffix[of g s' r s "[]"] r by simp
  then obtain p where "s = p @ s'" by (auto simp: suffix_def)
  then show "s = matched m @ rest m" using m by simp
  show "prefix_text m = []" using m by simp
qed

lemma match_at_None: "match_at r s = None \<longleftrightarrow> run r s [] = []"
  by (auto simp: match_at_def split: list.splits)

lemma re_sub_Nil: "match_at r [] = None \<Longrightarrow> re_sub r tpl [] = []"
  by (subst re_sub.simps) simp

lemma re_sub_skip: "match_at r (c # cs) = None \<Longrightarrow> re_sub r tpl (c # cs) = c # re_sub r tpl cs"
  by (subst re_sub.simps) simp

lemma re_sub_hit:
  assumes "match_at r s = Some m" "matched m \<noteq> []"
  shows "re_sub r tpl s = expand tpl m @ re_sub r tpl (rest m)"
proof -
  have "s = matched m @ rest m" using match_at_Some(1)[OF assms(1)] .
  then have "length (rest m) < length s" using assms(2)
    by (metis add_cancel_right_left le_add2 le_neq_implies_less length_0_conv length_append) 
  then show ?thesis using assms by (subst re_sub.simps) simp
qed

lemma re_sub_empty_hit_Nil:
  "match_at r [] = Some m \<Longrightarrow> re_sub r tpl [] = expand tpl m"
  by (subst re_sub.simps) (auto dest: match_at_Some)

lemma re_sub_empty_hit:
  "match_at r (c # cs) = Some m \<Longrightarrow> matched m = [] \<Longrightarrow> re_sub r tpl (c # cs) = expand tpl m @ c # re_sub r tpl cs"
  by (subst re_sub.simps) auto

lemma re_sub_set_lit: "set (re_sub r [TLit t] s) \<subseteq> set s \<union> set t"
proof (induction s rule: length_induct)
  case (1 s)
  show ?case
  proof (cases "match_at r s")
    case None
    then show ?thesis using 1 by (cases s) (auto simp: re_sub_Nil re_sub_skip)
  next
    case (Some m)
    have s: "s = matched m @ rest m" using match_at_Some[OF Some] by simp
    show ?thesis
    proof (cases "matched m = []")
      case False
      then have "length (rest m) < length s" using s
        by (metis add_cancel_right_left le_add2 le_neq_implies_less length_0_conv length_append) 
      then have "set (re_sub r [TLit t] (rest m)) \<subseteq> set (rest m) \<union> set t" using 1 by blast
      moreover have "set (rest m) \<subseteq> set s" using s by (metis Un_upper2 set_append)
      ultimately show ?thesis using re_sub_hit[OF Some False, of "[TLit t]"] by auto
    next
      case True
      then show ?thesis using Some 1 by (cases s) (auto simp: re_sub_empty_hit_Nil re_sub_empty_hit)
    qed
  qed
qed

lemma match_at_Plus:
  "match_at (Plus c) s = (if takeWhile (in_cls c) s = [] then None
     else Some \<lparr>prefix_text = [], matched = takeWhile (in_cls c) s, groups = [], rest = dropWhile (in_cls c) s\<rparr>)"
proof (cases "takeWhile (in_cls c) s = []")
  case True
  then show ?thesis by (simp add: match_at_def)
next
  case False
  define n where "n = length (takeWhile (in_cls c) s)"
  have n: "1 \<le> n" using False by (simp add: n_def Suc_leI)
  have r: "run (Plus c) s [] = ([], drop n s) # map (\<lambda>k. ([], drop k s)) (rev [1 ..< n])"
    using n unfolding run.simps n_def[symmetric] by simp
  have tk: "take n s = takeWhile (in_cls c) s" and dr: "drop n s = dropWhile (in_cls c) s"
    unfolding n_def by (rule takeWhile_eq_take[symmetric], rule dropWhile_eq_drop[symmetric])
  have "n \<le> length s" unfolding n_def by (simp add: length_takeWhile_le)
  then have "take (length s - length (drop n s)) s = take n s" by simp
  then show ?thesis using False unfolding match_at_def r by (simp add: tk dr)
qed

lemma in_cls_Space [simp]: "in_cls Space = is_space"
  by (rule ext) simp

lemma clean8_spaces: "\<forall>c \<in> set (re_sub (Plus Space) [TLit '' ''] s). is_space c \<longrightarrow> c = CHR '' ''"
proof (induction s rule: measure_induct_rule[where f = length])
  case (less s)
  show ?case
  proof (cases "takeWhile is_space s = []")
    case True
    then have none: "match_at (Plus Space) s = None" by (simp add: match_at_Plus)
    show ?thesis
    proof (cases s)
      case Nil then show ?thesis using none by (simp add: re_sub_Nil)
    next
      case (Cons c cs)
      have nc: "\<not> is_space c" using True Cons by (auto split: if_splits)
      show ?thesis using less.IH[of cs] nc Cons none by (simp add: re_sub_skip)
    qed
  next
    case False
    let ?m = "\<lparr>prefix_text = [], matched = takeWhile is_space s, groups = [], rest = dropWhile is_space s\<rparr>"
    have some: "match_at (Plus Space) s = Some ?m" using False by (simp add: match_at_Plus)
    have "length (dropWhile is_space s) < length s" using False
      by (metis append_self_conv2 length_append length_greater_0_conv less_add_same_cancel2 takeWhile_dropWhile_id)
    from less.IH[OF this] show ?thesis using re_sub_hit[OF some, of "[TLit '' '']"] False by simp
  qed
qed

lemma clean_no_newline: "NL \<notin> set (clean_difcommands t)"
proof -
  have a: "NL \<notin> set (clean8 x)" for x
    using clean8_spaces[of x] by (auto simp: clean8_def is_space_def)
  have b: "NL \<notin> set x \<Longrightarrow> NL \<notin> set (clean9 x)" for x
    using re_sub_set_lit[of _ "BS # ''begin{''" x] by (auto simp: clean9_def)
  have c: "NL \<notin> set x \<Longrightarrow> NL \<notin> set (clean10 x)" for x
    using re_sub_set_lit[of _ "BS # ''end{''" x] by (auto simp: clean10_def)
  show ?thesis unfolding clean_difcommands_def by (intro c b a)
qed

section \<open>The diff cleaner ends its output with one newline\<close>

text \<open>
  Claim C7. Whenever \<open>process_files\<close> returns, the text it returns is some text without
  any newline followed by one newline: it ends with exactly one newline character, and
  the character in front of it, if there is one, is not a newline.
\<close>

theorem C7_single_trailing_newline:
  assumes "process_files latexdiff new_file = Returned out"
  shows "\<exists>body. out = body @ [NL] \<and> NL \<notin> set body"
proof -
  obtain t where out: "out = finish_text t"
    using assms unfolding process_files_def
    by (auto split: diff_run.splits sum.splits)
  have "\<not> endswith (clean_difcommands t) [NL]"
  proof
    assume "endswith (clean_difcommands t) [NL]"
    then have "NL \<in> set (clean_difcommands t)"
      unfolding endswith_def by (metis in_set_dropD list.set_intros(1))
    then show False using clean_no_newline by simp
  qed
  then have "out = clean_difcommands t @ [NL]" by (simp add: out finish_text_def)
  then show ?thesis using clean_no_newline by blast
qed

theorem C7_single_trailing_newline_witness:
  "process_files (DiffOk (''a '' @ [NL, NL] @ '' b'' @ [NL])) (Inr []) = Returned (''a b '' @ [NL])
   \<and> (\<exists>body. ''a b '' @ [NL] = body @ [NL] \<and> NL \<notin> set body)"
proof -
  have h: "process_files (DiffOk (''a '' @ [NL, NL] @ '' b'' @ [NL])) (Inr [])
             = Returned (''a b '' @ [NL])"
    by code_simp
  show ?thesis by (rule conjI [OF h C7_single_trailing_newline [OF h]])
qed

section \<open>Markup cleanup is not idempotent\<close>






























section \<open>A bibliography without an item count stops the diff cleaner\<close>

lemma run_Seq_Lit:
  "run (Seq (Lit l) r) s g = (if take (length l) s = l then run r (drop (length l) s) g else [])"
  by simp

lemma in_takeWhile_nth:
  assumes "k < length (takeWhile P t)"
  shows "P (t ! k)" and "k < length t"
proof -
  have "takeWhile P t ! k = t ! k" using assms by (rule takeWhile_nth)
  moreover have "takeWhile P t ! k \<in> set (takeWhile P t)" using assms by simp
  ultimately show "P (t ! k)" by (metis set_takeWhileD)
  show "k < length t" using assms length_takeWhile_le[of P t] by linarith
qed

lemma lit_after_class:
  assumes "\<not> P x" "k < length (takeWhile P t)"
  shows "take (length (x # l)) (drop k t) \<noteq> x # l"
proof
  assume a: "take (length (x # l)) (drop k t) = x # l"
  have k: "k < length t" "P (t ! k)" using in_takeWhile_nth[OF assms(2)] by simp_all
  then have "drop k t = t ! k # drop (Suc k) t" by (simp add: Cons_nth_drop_Suc)
  then have "t ! k = x" using a by simp
  then show False using k(2) assms(1) by simp
qed

lemma concat_rev_upt_all_Nil:
  assumes "\<And>k. a \<le> k \<Longrightarrow> k < b \<Longrightarrow> f k = []"
  shows "concat (map f (rev [a ..< b])) = []"
  using assms by (induction b) auto

lemma run_Grp_Plus_Lit:
  assumes nx: "\<not> in_cls c x"
  shows "run (Seq (Grp n (Plus c)) (Lit (x # l))) t g =
     (if takeWhile (in_cls c) t \<noteq> [] \<and> take (length (x # l)) (dropWhile (in_cls c) t) = x # l
      then [((n, takeWhile (in_cls c) t) # g, drop (length (x # l)) (dropWhile (in_cls c) t))]
      else [])"
proof -
  define N where "N = length (takeWhile (in_cls c) t)"
  define f where "f = (\<lambda>k. run (Lit (x # l)) (drop k t) ((n, take k t) # g))"
  have Nle: "N \<le> length t" unfolding N_def by (rule length_takeWhile_le)
  have run_eq: "run (Seq (Grp n (Plus c)) (Lit (x # l))) t g = concat (map f (rev [1 ..< Suc N]))"
  proof -
    have "\<And>k. k \<in> set (rev [1 ..< Suc N]) \<Longrightarrow>
        (\<lambda>(g', s'). run (Lit (x # l)) s' g') ((\<lambda>(g', s'). ((n, take (length t - length s') t) # g', s')) (g, drop k t)) = f k"
      using Nle by (auto simp: f_def)
    then show ?thesis
      unfolding run.simps N_def[symmetric] map_map comp_def
      by (intro arg_cong[where f = concat] map_cong) auto
  qed
  have small: "f k = []" if "1 \<le> k" "k < N" for k
    using lit_after_class[where P = "in_cls c" and x = x and k = k and t = t and l = l] nx that
    unfolding f_def N_def by simp
  have tk: "take N t = takeWhile (in_cls c) t" and dr: "drop N t = dropWhile (in_cls c) t"
    unfolding N_def by (rule takeWhile_eq_take[symmetric], rule dropWhile_eq_drop[symmetric])
  show ?thesis
  proof (cases "N = 0")
    case True
    then show ?thesis using run_eq by (simp add: N_def)
  next
    case False
    then have "rev [1 ..< Suc N] = N # rev [1 ..< N]" by simp
    then have "concat (map f (rev [1 ..< Suc N])) = f N @ concat (map f (rev [1 ..< N]))" by simp
    also have "concat (map f (rev [1 ..< N])) = []" by (rule concat_rev_upt_all_Nil) (use small in auto)
    finally have "run (Seq (Grp n (Plus c)) (Lit (x # l))) t g = f N" using run_eq by simp
    moreover have "takeWhile (in_cls c) t \<noteq> []" using False by (simp add: N_def)
    ultimately show ?thesis unfolding f_def tk dr by simp
  qed
qed

lemma in_cls_Digit [simp]: "in_cls Digit = is_digit"
  by (rule ext) simp

lemma brace_not_digit: "\<not> is_digit CHR ''}''"
  by (simp add: is_digit_def)

lemma match_at_of_run:
  assumes "run r s [] = (g, s') # xs" "s = m @ s'"
  shows "match_at r s = Some \<lparr>prefix_text = [], matched = m, groups = g, rest = s'\<rparr>"
  unfolding match_at_def assms(1) by (simp add: assms(2))

lemma match_at_lit_digits_brace:
  "match_at (Seq (Lit l) (Seq (Grp n (Plus Digit)) (Lit ''}''))) s =
     (if count_marker_at l s
      then Some \<lparr>prefix_text = [],
                 matched = l @ takeWhile is_digit (drop (length l) s) @ ''}'',
                 groups = [(n, takeWhile is_digit (drop (length l) s))],
                 rest = drop 1 (dropWhile is_digit (drop (length l) s))\<rparr>
      else None)"
proof -
  define t where "t = drop (length l) s"
  define w where "w = takeWhile is_digit t"
  define d where "d = dropWhile is_digit t"
  have nd: "\<not> in_cls Digit CHR ''}''" by (simp add: brace_not_digit)
  have r1: "run (Seq (Lit l) (Seq (Grp n (Plus Digit)) (Lit ''}''))) s [] =
      (if take (length l) s = l then run (Seq (Grp n (Plus Digit)) (Lit ''}'')) t [] else [])"
    unfolding run_Seq_Lit t_def by simp
  have r2: "run (Seq (Grp n (Plus Digit)) (Lit ''}'')) t [] =
      (if w \<noteq> [] \<and> take 1 d = ''}'' then [([(n, w)], drop 1 d)] else [])"
    using run_Grp_Plus_Lit[OF nd, of n "[]" t "[]"] by (simp add: w_def d_def)
  have cm: "count_marker_at l s \<longleftrightarrow> take (length l) s = l \<and> w \<noteq> [] \<and> take 1 d = ''}''"
    by (simp add: count_marker_at_def startswith_def w_def d_def t_def)
  show ?thesis
  proof (cases "count_marker_at l s")
    case True
    then have a: "take (length l) s = l" "w \<noteq> []" "take 1 d = ''}''" using cm by simp_all
    have run: "run (Seq (Lit l) (Seq (Grp n (Plus Digit)) (Lit ''}''))) s [] = ([(n, w)], drop 1 d) # []"
      unfolding r1 r2 using a by simp
    have e1: "s = l @ t" using a(1) by (metis append_take_drop_id t_def)
    have e2: "t = w @ d" by (simp add: w_def d_def)
    have e3: "d = ''}'' @ drop 1 d" using a(3) by (metis append_take_drop_id)
    have s: "s = (l @ w @ ''}'') @ drop 1 d"
      by (subst e1, subst e2, subst e3) simp
    show ?thesis using match_at_of_run[OF run s] True
      by (simp add: w_def d_def t_def)
  next
    case False
    then have e: "run (Seq (Lit l) (Seq (Grp n (Plus Digit)) (Lit ''}''))) s [] = []"
      unfolding r1 r2 using cm by auto
    show ?thesis unfolding match_at_def e using False by simp
  qed
qed

lemma match_at_bib_count:
  "match_at bib_count_re s =
     (if count_marker_here s
      then Some \<lparr>prefix_text = [],
                 matched = BS # ''begin{thebibliography}{''
                           @ takeWhile is_digit (drop (length (BS # ''begin{thebibliography}{'')) s) @ ''}'',
                 groups = [(1, takeWhile is_digit (drop (length (BS # ''begin{thebibliography}{'')) s))],
                 rest = drop 1 (dropWhile is_digit (drop (length (BS # ''begin{thebibliography}{'')) s))\<rparr>
      else None)"
proof -
  have re: "bib_count_re = Seq (Lit (BS # ''begin{thebibliography}{'')) (Seq (Grp 1 (Plus Digit)) (Lit ''}''))"
    by (simp add: bib_count_re_def)
  show ?thesis unfolding re count_marker_here_def match_at_lit_digits_brace
    by (simp del: length_Cons list.size)
qed

lemma re_search_None: "(re_search r s = None) = (\<forall>t. suffix t s \<longrightarrow> match_at r t = None)"
proof (induction s)
  case Nil
  then show ?case by simp
next
  case (Cons c cs)
  show ?case by (auto simp: Cons suffix_Cons split: option.splits)
qed

lemma has_count_marker_iff: "has_count_marker s \<longleftrightarrow> (\<exists>t. suffix t s \<and> count_marker_here t)"
proof (induction s)
  case Nil
  show ?case by (simp add: count_marker_here_def count_marker_at_def startswith_def)
next
  case (Cons c cs)
  show ?case by (auto simp: Cons suffix_Cons)
qed

lemma search_bib_count_None: "re_search bib_count_re s = None \<longleftrightarrow> \<not> has_count_marker s"
  unfolding re_search_None has_count_marker_iff by (auto simp: match_at_bib_count)

lemma fix_bibliography_enumeration_raises:
  "fix_bibliography_enumeration bib_text final_bib_text = Inl AttributeError
     \<longleftrightarrow> \<not> has_count_marker final_bib_text"
  using search_bib_count_None[of final_bib_text]
  by (auto simp: fix_bibliography_enumeration_def Let_def split: option.splits)

text \<open>
  Claim C9. When \<open>latexdiff\<close> succeeds and both the diff and the new document have a
  bibliography block, but no begin marker in the block of the new document carries a
  decimal item count, \<open>process_files\<close> raises \<open>AttributeError\<close> (from \<open>.group(1)\<close> on
  the failed search) and returns no text.
\<close>

theorem C9_missing_count_raises:
  assumes "extract_bibliography diff_text \<noteq> []"
    and "extract_bibliography new_text \<noteq> []"
    and "\<not> has_count_marker (extract_bibliography new_text)"
  shows "process_files (DiffOk diff_text) (Inr new_text) = Raised AttributeError"
proof -
  have "fix_bibliography_enumeration (extract_bibliography diff_text) (extract_bibliography new_text)
          = Inl AttributeError"
    using assms(3) by (simp add: fix_bibliography_enumeration_raises)
  then have "repair_bibliography diff_text new_text = Inl AttributeError"
    using assms(1,2) by (simp add: repair_bibliography_def Let_def)
  then show ?thesis by (simp add: process_files_def)
qed

theorem C9_missing_count_raises_witness:
  "extract_bibliography (BS # ''begin{thebibliography}{9}'' @ BS # ''end{thebibliography}'') \<noteq> []
   \<and> extract_bibliography (BS # ''begin{thebibliography}{}'' @ BS # ''end{thebibliography}'') \<noteq> []
   \<and> \<not> has_count_marker
         (extract_bibliography (BS # ''begin{thebibliography}{}'' @ BS # ''end{thebibliography}''))
   \<and> process_files (DiffOk (BS # ''begin{thebibliography}{9}'' @ BS # ''end{thebibliography}''))
        (Inr (BS # ''begin{thebibliography}{}'' @ BS # ''end{thebibliography}''))
      = Raised AttributeError"
proof -
  have h1: "extract_bibliography (BS # ''begin{thebibliography}{9}'' @ BS # ''end{thebibliography}'') \<noteq> []"
    by code_simp
  have h2: "extract_bibliography (BS # ''begin{thebibliography}{}'' @ BS # ''end{thebibliography}'') \<noteq> []"
    by code_simp
  have h3: "\<not> has_count_marker
         (extract_bibliography (BS # ''begin{thebibliography}{}'' @ BS # ''end{thebibliography}''))"
    by code_simp
  show ?thesis
    by (intro conjI h1 h2 h3 C9_missing_count_raises [OF h1 h2 h3])
qed

section \<open>The renumbered bibliography\<close>

lemma dedup_set: "set (dedup seen xs) = set xs - seen"
  by (induction xs arbitrary: seen) auto

lemma dedup_distinct: "distinct (dedup seen xs)"
  by (induction xs arbitrary: seen) (auto simp: dedup_set)

lemma remdups_snoc: "remdups (ys @ [x]) = remdups (filter (\<lambda>y. y \<noteq> x) ys) @ [x]"
  by (induction ys) auto

lemma dedup_first: "dedup seen xs = rev (remdups (rev (filter (\<lambda>x. x \<notin> seen) xs)))"
proof (induction xs arbitrary: seen)
  case Nil
  show ?case by simp
next
  case (Cons x xs)
  show ?case
  proof (cases "x \<in> seen")
    case True
    then show ?thesis using Cons[of seen] by simp
  next
    case False
    define F where "F = filter (\<lambda>y. y \<notin> seen) xs"
    have f: "filter (\<lambda>y. y \<noteq> x) F = filter (\<lambda>y. y \<notin> insert x seen) xs"
      unfolding F_def by (induction xs) auto
    have "remdups (rev F @ [x]) = remdups (filter (\<lambda>y. y \<noteq> x) (rev F)) @ [x]"
      by (rule remdups_snoc)
    also have "filter (\<lambda>y. y \<noteq> x) (rev F) = rev (filter (\<lambda>y. y \<noteq> x) F)"
      by (simp add: rev_filter)
    finally have "remdups (rev F @ [x]) = remdups (rev (filter (\<lambda>y. y \<notin> insert x seen) xs)) @ [x]"
      by (simp add: f)
    then have "rev (remdups (rev (filter (\<lambda>y. y \<notin> seen) (x # xs))))
        = x # rev (remdups (rev (filter (\<lambda>y. y \<notin> insert x seen) xs)))"
      using False by (simp add: F_def)
    then show ?thesis using False Cons[of "insert x seen"] by simp
  qed
qed

lemma extract_citations_first:
  "extract_citations content = rev (remdups (rev (cited_keys content)))"
  by (simp add: extract_citations_def dedup_first)

lemma extract_citations_length:
  "length (extract_citations content) = card (set (cited_keys content))"
  by (simp add: extract_citations_def distinct_card[OF dedup_distinct, symmetric] dedup_set)

lemma numbered_items_shape:
  "\<exists>ns. length ns = length (filter (\<lambda>k. map_of d k \<noteq> None) ks)
     \<and> numbered_items i ks d
         = map2 (\<lambda>n k. numbered_bibitem n k (the (map_of d k))) ns
             (filter (\<lambda>k. map_of d k \<noteq> None) ks)
     \<and> ((\<forall>k \<in> set ks. map_of d k \<noteq> None) \<longrightarrow> ns = [i ..< i + length ks])"
proof (induction ks arbitrary: i)
  case Nil
  show ?case by simp
next
  case (Cons k ks)
  from Cons[of "Suc i"] obtain ns where ns:
    "length ns = length (filter (\<lambda>k. map_of d k \<noteq> None) ks)"
    "numbered_items (Suc i) ks d
       = map2 (\<lambda>n k. numbered_bibitem n k (the (map_of d k))) ns (filter (\<lambda>k. map_of d k \<noteq> None) ks)"
    "(\<forall>k \<in> set ks. map_of d k \<noteq> None) \<longrightarrow> ns = [Suc i ..< Suc i + length ks]"
    by blast
  show ?case
  proof (cases "map_of d k")
    case None
    then show ?thesis using ns by (intro exI[of _ ns]) simp
  next
    case (Some body)
    have "i < i + length (k # ks)" by simp
    then have "[i ..< i + length (k # ks)] = i # [Suc i ..< i + length (k # ks)]"
      by (rule upt_conv_Cons)
    then have up: "[i ..< i + length (k # ks)] = i # [Suc i ..< Suc i + length ks]" by simp
    show ?thesis using ns Some unfolding up by (intro exI[of _ "i # ns"]) auto
  qed
qed

lemma numbered_items_length: "length (numbered_items i ks d) \<le> length ks"
  by (induction ks arbitrary: i) (auto split: option.splits intro: le_SucI)

lemma reorder_bibliography_items:
  assumes "re_search bib_begin_re bbl_content = Some begin_match"
  shows "reorder_bibliography fix_reference_numbers bbl_content citations
    = join_nl ([bib_definitions, group begin_match 0]
               @ bibliography_items fix_reference_numbers citations (bibitem_dict bbl_content)
               @ [BS # ''end{thebibliography}''])"
  using assms by (simp add: reorder_bibliography_def)

text \<open>
  Claim C1, as stated, fails in two places. The number of an entry is the position of
  its key in the list of cited keys, so a cited key without a compiled entry leaves a gap:
  with \<open>\cite{a,b}\<close> and a compiled bibliography that has only \<open>b\<close>, the one entry
  written is \<open>\bibitem [{2}] {b}B\<close>, not number 1. And when the document has no
  \<open>\cite\<close> command, the list of citations is empty, \<open>if self.fix_reference_numbers and
  citations\<close> is false, and every compiled entry is written, unnumbered: one entry for no
  cited key.
\<close>

theorem C1_counterexample:
  "bibliography_items True (Some (extract_citations (BS # ''cite{a,b}'')))
      (bibitem_dict (BS # ''begin{thebibliography}{1}'' @ BS # ''bibitem{b}B''
                     @ BS # ''end{thebibliography}''))
     = [BS # ''bibitem [{2}] {b}B'']
   \<and> length (extract_citations ''no citation'') = 0
   \<and> bibliography_items True (Some (extract_citations ''no citation''))
      (bibitem_dict (BS # ''begin{thebibliography}{1}'' @ BS # ''bibitem{b}B''
                     @ BS # ''end{thebibliography}''))
     = [BS # ''bibitem {b}B'']"
  by code_simp

text \<open>
  Claim C1, amended. When the document cites at least one key and both flags are set:
  the cited keys are taken in the order of their first citation, each once
  (\<open>remdups\<close> keeps the last occurrence, so the reversed list of the reversed citations
  keeps the first); the entries written are at most as many as the distinct cited keys;
  they are the entries of the cited keys that have a compiled entry, in that order, each
  with a number; and when every cited key has a compiled entry the numbers are
  1, 2, ..., N.
\<close>

theorem C1_reordered_bibliography:
  assumes "extract_citations content \<noteq> []"
  shows "extract_citations content = rev (remdups (rev (cited_keys content)))
    \<and> length (bibliography_items True (Some (extract_citations content)) (bibitem_dict bbl))
        \<le> card (set (cited_keys content))
    \<and> (\<exists>ns. length ns
              = length (filter (\<lambda>k. map_of (bibitem_dict bbl) k \<noteq> None) (extract_citations content))
          \<and> bibliography_items True (Some (extract_citations content)) (bibitem_dict bbl)
              = map2 (\<lambda>n k. numbered_bibitem n k (the (map_of (bibitem_dict bbl) k))) ns
                  (filter (\<lambda>k. map_of (bibitem_dict bbl) k \<noteq> None) (extract_citations content))
          \<and> ((\<forall>k \<in> set (extract_citations content). map_of (bibitem_dict bbl) k \<noteq> None)
               \<longrightarrow> ns = [1 ..< Suc (length (extract_citations content))]))"
proof -
  define cs where "cs = extract_citations content"
  define d where "d = bibitem_dict bbl"
  have items: "bibliography_items True (Some cs) d = numbered_items 1 cs d"
    using assms by (cases cs) (simp_all add: cs_def bibliography_items_def)
  have "length cs = card (set (cited_keys content))"
    unfolding cs_def by (rule extract_citations_length)
  then have le: "length (bibliography_items True (Some cs) d) \<le> card (set (cited_keys content))"
    unfolding items using numbered_items_length[of 1 cs d] by simp
  from numbered_items_shape[of d cs 1] obtain ns where
    "length ns = length (filter (\<lambda>k. map_of d k \<noteq> None) cs)"
    "numbered_items 1 cs d
       = map2 (\<lambda>n k. numbered_bibitem n k (the (map_of d k))) ns (filter (\<lambda>k. map_of d k \<noteq> None) cs)"
    "(\<forall>k \<in> set cs. map_of d k \<noteq> None) \<longrightarrow> ns = [1 ..< 1 + length cs]"
    by blast
  then have "\<exists>ns. length ns = length (filter (\<lambda>k. map_of d k \<noteq> None) cs)
      \<and> bibliography_items True (Some cs) d
          = map2 (\<lambda>n k. numbered_bibitem n k (the (map_of d k))) ns (filter (\<lambda>k. map_of d k \<noteq> None) cs)
      \<and> ((\<forall>k \<in> set cs. map_of d k \<noteq> None) \<longrightarrow> ns = [1 ..< Suc (length cs)])"
    unfolding items by (intro exI[of _ ns]) simp
  then show ?thesis
    using le extract_citations_first[of content] unfolding cs_def d_def by blast
qed

theorem C1_reordered_bibliography_witness:
  "extract_citations (BS # ''cite{b, a} and '' @ BS # ''cite{a}'') = [''b'', ''a'']
   \<and> bibliography_items True (Some [''b'', ''a''])
        (bibitem_dict (BS # ''begin{thebibliography}{2}'' @ BS # ''bibitem{a}A'' @ [NL]
                       @ BS # ''bibitem{b}B'' @ BS # ''end{thebibliography}''))
      = [BS # ''bibitem [{1}] {b}B'', BS # ''bibitem [{2}] {a}A'']
   \<and> length (bibliography_items True (Some (extract_citations (BS # ''cite{b, a} and '' @ BS # ''cite{a}'')))
        (bibitem_dict (BS # ''begin{thebibliography}{2}'' @ BS # ''bibitem{a}A'' @ [NL]
                       @ BS # ''bibitem{b}B'' @ BS # ''end{thebibliography}'')))
      \<le> card (set (cited_keys (BS # ''cite{b, a} and '' @ BS # ''cite{a}'')))"
proof -
  have h: "extract_citations (BS # ''cite{b, a} and '' @ BS # ''cite{a}'') \<noteq> []"
    by code_simp
  have e: "extract_citations (BS # ''cite{b, a} and '' @ BS # ''cite{a}'') = [''b'', ''a'']"
    by code_simp
  have i: "bibliography_items True (Some [''b'', ''a''])
        (bibitem_dict (BS # ''begin{thebibliography}{2}'' @ BS # ''bibitem{a}A'' @ [NL]
                       @ BS # ''bibitem{b}B'' @ BS # ''end{thebibliography}''))
      = [BS # ''bibitem [{1}] {b}B'', BS # ''bibitem [{2}] {a}A'']"
    by code_simp
  from C1_reordered_bibliography [OF h] have
    "length (bibliography_items True (Some (extract_citations (BS # ''cite{b, a} and '' @ BS # ''cite{a}'')))
        (bibitem_dict (BS # ''begin{thebibliography}{2}'' @ BS # ''bibitem{a}A'' @ [NL]
                       @ BS # ''bibitem{b}B'' @ BS # ''end{thebibliography}'')))
      \<le> card (set (cited_keys (BS # ''cite{b, a} and '' @ BS # ''cite{a}'')))"
    by blast
  then show ?thesis using e i by blast
qed

section \<open>Flattening: files without includes, and comment lines\<close>

lemma split_on_nonempty: "split_on sep s \<noteq> []"
  by (induction s) (auto split: list.splits)





lemma process_lines_append:
  assumes "process_lines f ls1 = Inr (o1, w1)" "process_lines f ls2 = Inr (o2, w2)"
  shows "process_lines f (ls1 @ ls2) = Inr (o1 @ o2, w1 @ w2)"
  using assms
proof (induction ls1 arbitrary: o1 w1)
  case Nil
  then show ?case by simp
next
  case (Cons l ls)
  from Cons.prems(1) obtain a b c d where
    f: "f l = Inr (a, b)" and r: "process_lines f ls = Inr (c, d)" and e: "o1 = a @ c" "w1 = b @ d"
    by (auto split: sum.splits prod.splits)
  show ?case using Cons.IH[OF r Cons.prems(2)] f e by simp
qed




lemma replace_char:
  "py_replace [c] rep s = concat (map (\<lambda>x. if x = c then rep else [x]) s)"
  unfolding py_replace_def by (induction s) simp_all

lemma split_on_append_free:
  "sep \<notin> set u \<Longrightarrow> split_on sep (u @ v) = (u @ hd (split_on sep v)) # tl (split_on sep v)"
proof (induction u)
  case Nil
  then show ?case using split_on_nonempty[of sep v] by simp
next
  case (Cons x u)
  then show ?case by (auto split: list.splits)
qed

lemma concat_singletons:
  "\<forall>x \<in> set s. g x = [x] \<Longrightarrow> concat (map g s) = s"
  by (induction s) simp_all

lemma split_on_replace_char:
  assumes "c \<noteq> sep" "sep \<notin> set rep"
  shows "split_on sep (py_replace [c] rep s) = map (py_replace [c] rep) (split_on sep s)"
proof (induction s)
  case Nil
  show ?case by (simp add: replace_char)
next
  case (Cons x xs)
  obtain y ys where sp: "split_on sep xs = y # ys"
    using split_on_nonempty[of sep xs] by (cases "split_on sep xs") auto
  have IH: "split_on sep (concat (map (\<lambda>x. if x = c then rep else [x]) xs))
              = map (py_replace [c] rep) (y # ys)"
    using Cons sp by (simp add: replace_char)
  show ?case
  proof (cases "x = c")
    case True
    then have "split_on sep (py_replace [c] rep (x # xs))
       = (rep @ py_replace [c] rep y) # map (py_replace [c] rep) ys"
      using IH assms(2) by (simp add: replace_char split_on_append_free)
    then show ?thesis using True assms(1) sp by (simp add: replace_char)
  next
    case False
    then show ?thesis using IH sp by (simp add: replace_char)
  qed
qed

lemma split_on_foldl_replace:
  assumes "\<forall>(c, rep) \<in> set am. c \<noteq> sep \<and> sep \<notin> set rep"
  shows "split_on sep (foldl (\<lambda>t (c, rep). py_replace [c] rep t) s am)
           = map (\<lambda>l. foldl (\<lambda>t (c, rep). py_replace [c] rep t) l am) (split_on sep s)"
  using assms
proof (induction am arbitrary: s)
  case Nil
  show ?case by simp
next
  case (Cons a am)
  obtain c rep where a: "a = (c, rep)" by (cases a)
  have "c \<noteq> sep" "sep \<notin> set rep" using Cons.prems a by auto
  then show ?case using Cons a by (simp add: split_on_replace_char o_def)
qed

lemma accent_map_chars:
  "\<forall>(c, rep) \<in> set accent_map. c \<noteq> NL \<and> NL \<notin> set rep \<and> \<not> is_space c \<and> c \<noteq> CHR ''%''"
  by (simp add: accent_map_def is_space_def)

lemma split_on_transform_accents:
  "split_on NL (transform_accents s) = map transform_accents (split_on NL s)"
proof -
  have "\<forall>(c, rep) \<in> set accent_map. c \<noteq> NL \<and> NL \<notin> set rep" using accent_map_chars by fast
  from split_on_foldl_replace[OF this] show ?thesis unfolding transform_accents_def by blast
qed

lemma foldl_replace_comment:
  assumes "\<forall>(c, rep) \<in> set am. \<not> is_space c \<and> c \<noteq> CHR ''%''" "\<forall>x \<in> set ws. is_space x"
  shows "foldl (\<lambda>t (c, rep). py_replace [c] rep t) (ws @ CHR ''%'' # r) am
           = ws @ CHR ''%'' # foldl (\<lambda>t (c, rep). py_replace [c] rep t) r am"
  using assms(1)
proof (induction am arbitrary: r)
  case Nil
  show ?case by simp
next
  case (Cons a am)
  obtain c rep where a: "a = (c, rep)" by (cases a)
  have c: "\<not> is_space c" "c \<noteq> CHR ''%''" using Cons.prems a by auto
  have "concat (map (\<lambda>x. if x = c then rep else [x]) ws) = ws"
    using assms(2) c(1) by (intro concat_singletons) auto
  then have "py_replace [c] rep (ws @ CHR ''%'' # r) = ws @ CHR ''%'' # py_replace [c] rep r"
    using c(2) by (simp add: replace_char)
  then show ?case using Cons a by simp
qed

lemma transform_accents_comment:
  assumes "startswith (lstrip line) ''%''"
  shows "startswith (lstrip (transform_accents line)) ''%''"
proof -
  define ws where "ws = takeWhile is_space line"
  have ws: "\<forall>x \<in> set ws. is_space x" unfolding ws_def by (auto dest: set_takeWhileD)
  have "line = ws @ dropWhile is_space line" by (simp add: ws_def)
  moreover obtain r where "dropWhile is_space line = CHR ''%'' # r"
    using assms by (cases "dropWhile is_space line") (auto simp: startswith_def lstrip_def)
  ultimately have l: "line = ws @ CHR ''%'' # r" by simp
  have am: "\<forall>(c, rep) \<in> set accent_map. \<not> is_space c \<and> c \<noteq> CHR ''%''" using accent_map_chars by fast
  have "transform_accents line = ws @ CHR ''%'' # transform_accents r"
    unfolding transform_accents_def l by (rule foldl_replace_comment[OF am ws])
  moreover have "\<not> is_space CHR ''%''" by (simp add: is_space_def)
  ultimately show ?thesis using ws by (simp add: lstrip_def startswith_def dropWhile_append3)
qed

lemma foldl_replace_absent:
  assumes "\<forall>x \<in> set s. x \<notin> fst ` set am"
  shows "foldl (\<lambda>t (c, rep). py_replace [c] rep t) s am = s"
  using assms
proof (induction am)
  case Nil
  show ?case by simp
next
  case (Cons a am)
  obtain c rep where a: "a = (c, rep)" by (cases a)
  have "c \<notin> set s" using Cons.prems a by auto
  then have "concat (map (\<lambda>x. if x = c then rep else [x]) s) = s"
    by (intro concat_singletons) auto
  then have "py_replace [c] rep s = s" by (simp add: replace_char)
  then show ?case using Cons a by simp
qed

lemma process_lines_comment:
  assumes "startswith (lstrip line) ''%''"
    and "process_lines (process_line recurse fs file_path) before = Inr (o1, w1)"
    and "process_lines (process_line recurse fs file_path) after = Inr (o2, w2)"
  shows "process_lines (process_line recurse fs file_path) (before @ line # after)
        = Inr (o1 @ line # o2, w1 @ w2)"
proof -
  have l: "process_line recurse fs file_path line = Inr ([line], [])"
    using assms(1) by (simp add: process_line_def)
  then have "process_lines (process_line recurse fs file_path) (line # after) = Inr (line # o2, w2)"
    using assms(3) by simp
  from process_lines_append[OF assms(2) this] show ?thesis by simp
qed

text \<open>
  The claim as the specification has it fails: the accents are transliterated in the
  whole text before it is split into lines, so a comment line with an accented character
  is not in the output as it was in the file.
\<close>

theorem C8_counterexample:
  "process_file (Suc 0) accent_comment_files ''main.tex''
     = Inr (''% caf{'' @ BS # [CHR 0x27] @ ''e} '' @ BS # ''input{nofile}'', [])
   \<and> ''% caf{'' @ BS # [CHR 0x27] @ ''e} '' @ BS # ''input{nofile}''
       \<noteq> ''% caf'' @ [CHR 0xE9] @ '' '' @ BS # ''input{nofile}''"
  by code_simp

text \<open>
  Claim C8. A line of the file whose first non-whitespace character is \<open>%\<close> is put
  into the output of \<open>process_file\<close> with its accented characters transliterated and
  otherwise as it is (so unchanged when it has none of the characters of the accent
  table), between what the lines before it and after it produce; nothing is included for
  it and no warning is printed for it, whatever the line contains and whether or not any
  file exists.
\<close>

theorem C8_comment_line_transliterated:
  assumes "read_content fs file_path = Inr raw"
    and "split_on NL raw = before @ line # after"
    and "startswith (lstrip line) ''%''"
    and "process_lines (process_line (process_file depth fs) fs file_path)
           (map transform_accents before) = Inr (o1, w1)"
    and "process_lines (process_line (process_file depth fs) fs file_path)
           (map transform_accents after) = Inr (o2, w2)"
  shows "process_file (Suc depth) fs file_path
           = Inr (join_nl (o1 @ transform_accents line # o2), w1 @ w2)
         \<and> (set line \<inter> fst ` set accent_map = {} \<longrightarrow> transform_accents line = line)"
proof -
  have sp: "split_on NL (transform_accents raw)
              = map transform_accents before @ transform_accents line # map transform_accents after"
    unfolding split_on_transform_accents assms(2) by simp
  have "process_lines (process_line (process_file depth fs) fs file_path)
          (map transform_accents before @ transform_accents line # map transform_accents after)
        = Inr (o1 @ transform_accents line # o2, w1 @ w2)"
    by (rule process_lines_comment[OF transform_accents_comment[OF assms(3)] assms(4) assms(5)])
  then have "process_file (Suc depth) fs file_path
           = Inr (join_nl (o1 @ transform_accents line # o2), w1 @ w2)"
    using assms(1) sp by simp
  moreover have "set line \<inter> fst ` set accent_map = {} \<longrightarrow> transform_accents line = line"
    unfolding transform_accents_def by (auto intro!: foldl_replace_absent)
  ultimately show ?thesis by simp
qed

theorem C8_comment_line_transliterated_witness:
  "read_content accent_comment_files ''main.tex''
     = Inr (''% caf'' @ [CHR 0xE9] @ '' '' @ BS # ''input{nofile}'')
   \<and> split_on NL (''% caf'' @ [CHR 0xE9] @ '' '' @ BS # ''input{nofile}'')
       = [] @ (''% caf'' @ [CHR 0xE9] @ '' '' @ BS # ''input{nofile}'') # []
   \<and> startswith (lstrip (''% caf'' @ [CHR 0xE9] @ '' '' @ BS # ''input{nofile}'')) ''%''
   \<and> process_file (Suc 0) accent_comment_files ''main.tex''
       = Inr (join_nl ([] @ transform_accents (''% caf'' @ [CHR 0xE9] @ '' '' @ BS # ''input{nofile}'') # []),
              [] @ [])"
proof -
  have h1: "read_content accent_comment_files ''main.tex''
     = Inr (''% caf'' @ [CHR 0xE9] @ '' '' @ BS # ''input{nofile}'')"
    by code_simp
  have h2: "split_on NL (''% caf'' @ [CHR 0xE9] @ '' '' @ BS # ''input{nofile}'')
       = [] @ (''% caf'' @ [CHR 0xE9] @ '' '' @ BS # ''input{nofile}'') # []"
    by code_simp
  have h3: "startswith (lstrip (''% caf'' @ [CHR 0xE9] @ '' '' @ BS # ''input{nofile}'')) ''%''"
    by code_simp
  have h4: "process_lines (process_line (process_file 0 accent_comment_files) accent_comment_files ''main.tex'')
              (map transform_accents []) = Inr ([], [])"
    by simp
  from C8_comment_line_transliterated [OF h1 h2 h3 h4 h4]
  have "process_file (Suc 0) accent_comment_files ''main.tex''
       = Inr (join_nl ([] @ transform_accents (''% caf'' @ [CHR 0xE9] @ '' '' @ BS # ''input{nofile}'') # []),
              [] @ [])"
    by (rule conjunct1)
  then show ?thesis using h1 h2 h3 by (intro conjI)
qed

section \<open>Unique file names and the copies of the bibliography files\<close>

text \<open>The decimal digits of a number give the number back.\<close>

definition digit_val :: "char \<Rightarrow> nat" where
  "digit_val c = of_char c - 48"

lemma digit_val_char: "n < 10 \<Longrightarrow> digit_val (digit_char n) = n"
proof -
  assume "n < 10"
  then have "n \<in> {0,1,2,3,4,5,6,7,8,9}" by auto
  then show ?thesis by (auto simp: digit_val_def digit_char_def)
qed

lemma digit_char_set: "n < 10 \<Longrightarrow> digit_char n \<in> set ''0123456789''"
  unfolding digit_char_def by (rule nth_mem) simp

definition digits_val :: "string \<Rightarrow> nat" where
  "digits_val s = foldl (\<lambda>a c. 10 * a + digit_val c) 0 s"

lemma digits_val_str_nat: "digits_val (str_nat n) = n"
proof (induction n rule: str_nat.induct)
  case (1 n)
  show ?case
  proof (cases "n < 10")
    case True
    then show ?thesis by (subst str_nat.simps) (simp add: digits_val_def digit_val_char)
  next
    case False
    have "digits_val (str_nat (n div 10)) = n div 10" using 1 False by simp
    then show ?thesis using False
      by (subst str_nat.simps) (simp add: digits_val_def digit_val_char)
  qed
qed

lemma str_nat_inj: "str_nat a = str_nat b \<Longrightarrow> a = b"
  by (metis digits_val_str_nat)

lemma str_nat_chars: "set (str_nat n) \<subseteq> set ''0123456789''"
proof (induction n rule: str_nat.induct)
  case (1 n)
  show ?case
  proof (cases "n < 10")
    case True
    then show ?thesis using digit_char_set[of n] by (subst str_nat.simps) simp
  next
    case False
    have "set (str_nat (n div 10)) \<subseteq> set ''0123456789''" using 1 False by simp
    moreover have "digit_char (n mod 10) \<in> set ''0123456789''" by (rule digit_char_set) simp
    ultimately show ?thesis using False by (subst str_nat.simps) simp
  qed
qed

lemma unique_from_free: "unique_from fs t c = Some (Inr q) \<Longrightarrow> \<not> exists fs q"
proof -
  assume a: "unique_from fs t c = Some (Inr q)"
  have "\<forall>q. y = Inr q \<longrightarrow> \<not> exists fs q" if "unique_from fs t c = Some y" for y
    by (rule unique_from.raw_induct[where P = "\<lambda>fs t c y. \<forall>q. y = Inr q \<longrightarrow> \<not> exists fs q", OF _ that])
       (auto split: sum.splits if_splits)
  then show ?thesis using a by blast
qed

lemma get_unique_free: "get_unique_filename fs t = Some (Inr q) \<Longrightarrow> \<not> exists fs q"
  by (auto simp: get_unique_filename_def split: if_splits dest: unique_from_free)

lemma stem_suffix_chars:
  "set (path_stem t) \<subseteq> set (path_name t)" "set (path_suffix t) \<subseteq> set (path_name t)"
  by (auto simp: path_stem_def path_suffix_def Let_def split: option.splits if_splits
      dest: in_set_takeD in_set_dropD)

lemma slash_not_digit: "CHR ''/'' \<notin> set (str_nat k)"
  using str_nat_chars[of k] by auto

lemma with_stem_variant:
  assumes "path_name t \<noteq> []" "CHR ''/'' \<notin> set (path_name t)"
  shows "with_stem t (path_stem t @ ''_'' @ str_nat k) = Inr (numbered_variant t k)"
proof -
  let ?n = "(path_stem t @ ''_'' @ str_nat k) @ path_suffix t"
  have mem: "CHR ''_'' \<in> set ?n" by simp
  then have "?n \<noteq> []" by auto
  moreover have "?n \<noteq> ''.''"
  proof
    assume "?n = ''.''"
    then have "CHR ''_'' \<in> set ''.''" using mem by metis
    then show False by simp
  qed
  moreover have "CHR ''/'' \<notin> set ?n"
    using assms(2) stem_suffix_chars[of t] slash_not_digit[of k] by auto
  ultimately show ?thesis using assms(1)
    by (simp add: with_stem_def with_name_def numbered_variant_def)
qed

lemma numbered_variant_inj: "numbered_variant t a = numbered_variant t b \<Longrightarrow> a = b"
  by (auto simp: numbered_variant_def dest: str_nat_inj)

lemma free_variant_exists: "\<exists>k \<ge> c. \<not> exists fs (numbered_variant t k)"
proof (rule ccontr)
  assume "\<not> ?thesis"
  then have all: "\<And>k. c \<le> k \<Longrightarrow> exists fs (numbered_variant t k)" by blast
  have "numbered_variant t ` {c..} \<subseteq> fst ` set fs"
  proof
    fix p assume "p \<in> numbered_variant t ` {c..}"
    then obtain k where "c \<le> k" "p = numbered_variant t k" by auto
    then have "map_of fs p \<noteq> None" using all by (simp add: exists_def)
    then show "p \<in> fst ` set fs" by (simp add: map_of_eq_None_iff)
  qed
  then have "finite (numbered_variant t ` {c..})" by (rule finite_subset) simp
  moreover have "inj_on (numbered_variant t) {c..}"
    by (rule inj_onI) (rule numbered_variant_inj)
  ultimately have "finite {c..}" by (rule finite_imageD)
  then show False using infinite_Ici by blast
qed

lemma unique_from_first_free:
  assumes "path_name t \<noteq> []" "CHR ''/'' \<notin> set (path_name t)"
    and "\<not> exists fs (numbered_variant t k)" "c \<le> k"
    and "\<And>j. c \<le> j \<Longrightarrow> j < k \<Longrightarrow> exists fs (numbered_variant t j)"
  shows "unique_from fs t c = Some (Inr (numbered_variant t k))"
  using assms(4,5)
proof (induction "k - c" arbitrary: c)
  case 0
  then have "c = k" by simp
  then show ?case using assms(3)
    by (subst unique_from.simps, subst with_stem_variant[OF assms(1,2)]) simp
next
  case (Suc d)
  then have lt: "c < k" by simp
  then have ex: "exists fs (numbered_variant t c)" using Suc.prems(2) by simp
  have "unique_from fs t (Suc c) = Some (Inr (numbered_variant t k))"
    using Suc.hyps(1)[of "Suc c"] Suc.hyps(2) Suc.prems lt by simp
  then show ?case using ex
    by (subst unique_from.simps, subst with_stem_variant[OF assms(1,2)]) simp
qed

lemma shutil_copy_keeps:
  assumes "shutil_copy fs src dst = Inr fs'" "\<not> exists fs dst" "map_of fs p = Some e"
  shows "map_of fs' p = Some e"
proof -
  have n: "map_of fs dst = None" using assms(2) by (simp add: exists_def)
  then obtain d where "fs' = (dst, File d) # fs"
    using assms(1) by (auto simp: shutil_copy_def split: option.splits entry.splits)
  moreover have "p \<noteq> dst" using n assms(3) by auto
  ultimately show ?thesis using assms(3) by simp
qed

lemma copy_bib_file_keeps:
  assumes "copy_bib_file pd out fs n = Some (Inr (r, fs', pr))" "map_of fs p = Some e"
  shows "map_of fs' p = Some e"
proof (cases "filter (exists fs) [path_join pd (strip n), path_join pd (strip n @ ''.bib'')]")
  case Nil
  then have "fs' = fs" using assms(1) by (simp add: copy_bib_file_def Let_def)
  then show ?thesis using assms(2) by simp
next
  case (Cons bp rest)
  define tp where "tp = path_join out (if path_suffix bp = ''.bib'' then path_name bp else path_name bp @ ''.bib'')"
  from assms(1) Cons obtain q where
    g: "get_unique_filename fs tp = Some (Inr q)" and c: "shutil_copy fs bp q = Inr fs'"
    unfolding copy_bib_file_def Let_def tp_def
    by (auto split: option.splits sum.splits)
  show ?thesis using shutil_copy_keeps[OF c get_unique_free[OF g] assms(2)] .
qed

lemma copy_bib_files_keeps:
  "copy_bib_files pd out fs ns = Some (Inr (r, fs', pr)) \<Longrightarrow> map_of fs p = Some e
     \<Longrightarrow> map_of fs' p = Some e"
proof (induction ns arbitrary: fs r pr)
  case Nil
  then show ?case by simp
next
  case (Cons n ns)
  from Cons.prems(1) obtain r1 fs1 pr1 r2 pr2 where
    a: "copy_bib_file pd out fs n = Some (Inr (r1, fs1, pr1))"
    and b: "copy_bib_files pd out fs1 ns = Some (Inr (r2, fs', pr2))"
    by (auto split: option.splits sum.splits prod.splits)
  show ?case using Cons.IH[OF b copy_bib_file_keeps[OF a Cons.prems(2)]] .
qed

lemma copy_bib_command_keeps:
  assumes "copy_bib_command pd out (c, fs, pr) m = Some (Inr (c', fs', pr'))" "map_of fs p = Some e"
  shows "map_of fs' p = Some e"
proof -
  from assms(1) obtain r pr2 where
    "copy_bib_files pd out fs (split_on CHR '','' (group m 1)) = Some (Inr (r, fs', pr2))"
    by (auto simp: copy_bib_command_def split: option.splits sum.splits prod.splits)
  then show ?thesis using assms(2) by (rule copy_bib_files_keeps)
qed

lemma copy_bib_commands_keeps:
  "copy_bib_commands pd out (c, fs, pr) ms = Some (Inr (c', fs', pr')) \<Longrightarrow> map_of fs p = Some e
     \<Longrightarrow> map_of fs' p = Some e"
proof (induction ms arbitrary: c fs pr)
  case Nil
  then show ?case by simp
next
  case (Cons m ms)
  from Cons.prems(1) obtain c1 fs1 pr1 where
    a: "copy_bib_command pd out (c, fs, pr) m = Some (Inr (c1, fs1, pr1))"
    and b: "copy_bib_commands pd out (c1, fs1, pr1) ms = Some (Inr (c', fs', pr'))"
    by (auto split: option.splits sum.splits prod.splits)
  show ?case using Cons.IH[OF b copy_bib_command_keeps[OF a Cons.prems(2)]] .
qed

text \<open>
  Claim C10. For a target with a name (without a slash in it), \<open>get_unique_filename\<close>
  returns, and the path it returns does not exist: the target itself when it is free,
  otherwise the first of the variants \<open>_1\<close>, \<open>_2\<close>, ... of the stem that is free (all
  variants before it exist). And whenever \<open>copy_bibliography\<close> returns, every path that
  existed before still has the entry it had: no file is overwritten.
\<close>

theorem C10_unique_name_not_overwriting:
  assumes "path_name target \<noteq> []" and "CHR ''/'' \<notin> set (path_name target)"
    and "copy_bibliography project_dir output_dir fs content = Some (Inr (content', fs', printed))"
  shows "(\<exists>q. get_unique_filename fs0 target = Some (Inr q) \<and> \<not> exists fs0 q
            \<and> (\<not> exists fs0 target \<and> q = target
               \<or> exists fs0 target
                  \<and> (\<exists>k\<ge>1. with_stem target (path_stem target @ ''_'' @ str_nat k) = Inr q
                        \<and> (\<forall>j. 1 \<le> j \<and> j < k \<longrightarrow> exists fs0 (numbered_variant target j)))))
       \<and> (\<forall>p e. map_of fs p = Some e \<longrightarrow> map_of fs' p = Some e)"
proof -
  have keeps: "\<forall>p e. map_of fs p = Some e \<longrightarrow> map_of fs' p = Some e"
    using assms(3) unfolding copy_bibliography_def by (blast intro: copy_bib_commands_keeps)
  show ?thesis
  proof (cases "exists fs0 target")
    case False
    then show ?thesis using keeps by (simp add: get_unique_filename_def)
  next
    case True
    define k where "k = (LEAST k. 1 \<le> k \<and> \<not> exists fs0 (numbered_variant target k))"
    have ex: "\<exists>k. 1 \<le> k \<and> \<not> exists fs0 (numbered_variant target k)"
      using free_variant_exists[of 1 fs0 target] by blast
    have k1: "1 \<le> k" and kf: "\<not> exists fs0 (numbered_variant target k)"
      using LeastI_ex[OF ex] unfolding k_def by blast+
    have kl: "exists fs0 (numbered_variant target j)" if "1 \<le> j" "j < k" for j
      using not_less_Least[of j "\<lambda>k. 1 \<le> k \<and> \<not> exists fs0 (numbered_variant target k)"] that
      unfolding k_def by blast
    have "unique_from fs0 target 1 = Some (Inr (numbered_variant target k))"
      by (rule unique_from_first_free[OF assms(1,2) kf k1 kl])
    then have "get_unique_filename fs0 target = Some (Inr (numbered_variant target k))"
      using True by (simp add: get_unique_filename_def)
    moreover have "with_stem target (path_stem target @ ''_'' @ str_nat k) = Inr (numbered_variant target k)"
      by (rule with_stem_variant[OF assms(1,2)])
    ultimately show ?thesis using True k1 kf kl keeps by blast
  qed
qed

theorem C10_unique_name_not_overwriting_witness:
  "path_name [''out'', ''a.bib''] \<noteq> [] \<and> CHR ''/'' \<notin> set (path_name [''out'', ''a.bib''])
   \<and> copy_bibliography [''proj''] [''out''] example_project (BS # ''bibliography{a}'')
       = Some (Inr (BS # ''bibliography{a_2}'',
                    ([''out'', ''a_2.bib''], File ''A'') # example_project,
                    [''Copied bibliography file to: out/a_2.bib'']))
   \<and> get_unique_filename example_project [''out'', ''a.bib''] = Some (Inr [''out'', ''a_2.bib''])
   \<and> map_of (([''out'', ''a_2.bib''], File ''A'') # example_project) [''out'', ''a.bib'']
       = Some (File ''old'')"
proof -
  have h1: "path_name [''out'', ''a.bib''] \<noteq> []" by code_simp
  have h2: "CHR ''/'' \<notin> set (path_name [''out'', ''a.bib''])" by code_simp
  have h3: "copy_bibliography [''proj''] [''out''] example_project (BS # ''bibliography{a}'')
       = Some (Inr (BS # ''bibliography{a_2}'',
                    ([''out'', ''a_2.bib''], File ''A'') # example_project,
                    [''Copied bibliography file to: out/a_2.bib'']))"
    by code_simp
  have g: "get_unique_filename example_project [''out'', ''a.bib''] = Some (Inr [''out'', ''a_2.bib''])"
    by code_simp
  have m: "map_of example_project [''out'', ''a.bib''] = Some (File ''old'')"
    by code_simp
  from C10_unique_name_not_overwriting [OF h1 h2 h3, of example_project] m
  have "map_of (([''out'', ''a_2.bib''], File ''A'') # example_project) [''out'', ''a.bib'']
       = Some (File ''old'')"
    by blast
  then show ?thesis using h1 h2 h3 g by blast
qed

section \<open>Bibliography files that are not found\<close>






section \<open>The working directory after compiling the bibliography\<close>

lemma map_of_filter_key:
  "map_of (filter (\<lambda>(p, e). Q p) xs) k = (if Q k then map_of xs k else None)"
  by (induction xs) auto

lemma is_dir_cleanup: "is_dir (cleanup fs t) p \<Longrightarrow> is_dir fs p"
  by (auto simp: is_dir_def cleanup_def map_of_filter_key split: if_splits)

lemma run_commands_cwd: "run_commands env cs w = Inr w' \<Longrightarrow> cwd w' = cwd w"
  by (induction cs arbitrary: w) (auto split: sum.splits)

lemma compile_and_read_cwd: "compile_and_read env n s w = (r, w') \<Longrightarrow> cwd w' = cwd w"
  by (auto simp: compile_and_read_def Let_def split: sum.splits utf8_read.splits option.splits if_splits
      dest: run_commands_cwd)

lemma in_temp_dir_cwd:
  assumes "in_temp_dir env pd n s t w = (r, w')" "is_dir (fsys w') (cwd w)"
  shows "cwd w' = cwd w"
proof -
  let ?work = "path_join t (path_name pd)"
  show ?thesis
  proof (cases "copytree env (fsys w) pd ?work")
    case (Inl e)
    then show ?thesis using assms(1) by (auto simp: in_temp_dir_def Let_def)
  next
    case (Inr fs')
    define w1 where "w1 = w\<lparr>fsys := fs'\<rparr>"
    show ?thesis
    proof (cases "os_chdir w1 ?work")
      case (Inl e)
      then show ?thesis using assms(1) Inr by (auto simp: in_temp_dir_def Let_def w1_def)
    next
      case w2: (Inr w2)
      obtain res w3 where c: "compile_and_read env n s w2 = (res, w3)" by fastforce
      have f3: "cwd w3 = cwd w2" using compile_and_read_cwd[OF c] .
      show ?thesis
      proof (cases "os_chdir w3 (cwd w1)")
        case (Inl e)
        then have "w' = w3" using assms(1) Inr w2 c by (auto simp: in_temp_dir_def Let_def w1_def)
        then have "is_dir (fsys w3) (cwd w1)" using assms(2) by (simp add: w1_def)
        then show ?thesis using Inl by (simp add: os_chdir_def)
      next
        case w4: (Inr w4)
        then have "w' = w4" using assms(1) Inr w2 c by (auto simp: in_temp_dir_def Let_def w1_def)
        moreover have "cwd w4 = cwd w1" using w4 by (auto simp: os_chdir_def split: if_splits)
        ultimately show ?thesis by (simp add: w1_def)
      qed
    qed
  qed
qed

text \<open>
  Claim C6. \<open>generate_bbl_content\<close> leaves the working directory of the process as it
  found it, whether it returns or propagates an exception of the copy, of a compilation
  step, or of the reading of the \<open>.bbl\<close> file: the working directory after the call is the
  one before it, as long as that directory is still there to go back to.
\<close>

theorem C6_working_directory_restored:
  assumes "is_dir (fsys (snd (generate_bbl_content env project_dir tex_name tex_stem w))) (cwd w)"
  shows "cwd (snd (generate_bbl_content env project_dir tex_name tex_stem w)) = cwd w"
proof (cases "mkdtemp env (fsys w)")
  case (Inl e)
  then show ?thesis by (simp add: generate_bbl_content_def)
next
  case (Inr tf)
  obtain t fs' where tf: "tf = (t, fs')" by (cases tf)
  obtain r w' where i: "in_temp_dir env project_dir tex_name tex_stem t (w\<lparr>fsys := fs'\<rparr>) = (r, w')"
    by fastforce
  have g: "generate_bbl_content env project_dir tex_name tex_stem w
             = (r, w'\<lparr>fsys := cleanup (fsys w') t\<rparr>)"
    using Inr tf i by (simp add: generate_bbl_content_def)
  have "is_dir (cleanup (fsys w') t) (cwd w)" using assms unfolding g by simp
  then have "is_dir (fsys w') (cwd (w\<lparr>fsys := fs'\<rparr>))" by (simp add: is_dir_cleanup)
  from in_temp_dir_cwd[OF i this] show ?thesis unfolding g by simp
qed

theorem C6_working_directory_restored_witness:
  "is_dir (fsys (snd (generate_bbl_content failing_env [''/'', ''proj''] ''main.tex'' ''main'' home_world)))
      (cwd home_world)
   \<and> fst (generate_bbl_content failing_env [''/'', ''proj''] ''main.tex'' ''main'' home_world) = Inl OSError
   \<and> cwd (snd (generate_bbl_content failing_env [''/'', ''proj''] ''main.tex'' ''main'' home_world))
       = cwd home_world"
proof -
  have h: "is_dir (fsys (snd (generate_bbl_content failing_env [''/'', ''proj''] ''main.tex'' ''main'' home_world)))
      (cwd home_world)"
    by code_simp
  have e: "fst (generate_bbl_content failing_env [''/'', ''proj''] ''main.tex'' ''main'' home_world) = Inl OSError"
    by code_simp
  show ?thesis by (intro conjI h e C6_working_directory_restored [OF h])
qed

end
